theory Spec2Isabelle
  imports Complex_Main
begin

section \<open>Data model\<close>

text \<open>
  The controller of \<^verbatim>\<open>pelita/game_master.py\<close>: the class \<^verbatim>\<open>GameMaster\<close> with its
  \<^verbatim>\<open>game_state\<close> dictionary, and the class \<^verbatim>\<open>UniverseNoiser\<close>. The modules
  \<^verbatim>\<open>datamodel\<close> and \<^verbatim>\<open>graph\<close> are collaborators of the controller; what the
  controller calls of them is collected in the record \<open>collaborators\<close> below and is a
  parameter of every operation.
\<close>

type_synonym position = "int \<times> int"
type_synonym move = "int \<times> int"

text \<open>The exceptions that the controller raises, catches or lets through.\<close>

datatype exn =
    IllegalMoveException
  | PlayerTimeout
  | PlayerDisconnected
  | IndexError
  | ValueError
  | AttributeError

definition MAX_TIMEOUTS :: nat where
  "MAX_TIMEOUTS = 5"

record Bot =
  index :: nat
  team_index :: nat
  current_pos :: position
  noisy :: bool

text \<open>A team; \<open>team_id\<close> is the attribute \<^verbatim>\<open>index\<close> of the team object.\<close>

record Team =
  team_id :: nat
  name :: string
  score :: int

text \<open>
  The universe, as far as the controller reads it: the list of teams and the list of bots.
  Maze and food live in the extension part of the record.
\<close>

record CTFUniverse =
  teams :: "Team list"
  bots :: "Bot list"

text \<open>
  An entry of one of the event lists. What it holds is the datamodel's business; the
  controller only concatenates the lists.
\<close>

datatype event = Event nat

text \<open>The dictionary that \<^verbatim>\<open>universe.move_bot\<close> returns: one event list per key.\<close>

record move_state =
  moved :: "event list"
  eaten :: "event list"
  destroyed :: "event list"

text \<open>
  The dictionary \<^verbatim>\<open>self.game_state\<close>. \<^verbatim>\<open>None\<close> is \<open>None\<close>. The two time fields are sums
  of wall-clock differences; they are carried along as numbers and nothing is proved of them.
\<close>

record GameState =
  bot_moved :: "event list"
  food_eaten :: "event list"
  bot_destroyed :: "event list"
  timeout_teams :: "nat list"
  bot_id :: "nat option"
  round_index :: "int option"
  running_time :: real
  finished :: bool
  team_time :: "real list"
  team_wins :: "int option"
  game_draw :: "bool option"

record UniverseNoiser =
  noise_radius :: int
  sight_distance :: int

text \<open>
  The generator object returned by \<^verbatim>\<open>_play_bot_iterator\<close>: created and not yet started,
  suspended at its \<^verbatim>\<open>yield\<close> with the list iterator of \<^verbatim>\<open>self.universe.bots\<close> standing
  before the bot at the given place, or dead (it has returned or raised).
\<close>

datatype iterator = Created | Suspended nat | Exhausted

text \<open>
  The \<^verbatim>\<open>GameMaster\<close> object. A registered player team is represented by the list of bot
  indices it has been asked a move for, a registered viewer by the list of the
  (universe, game state) pairs it has been handed through \<^verbatim>\<open>observe\<close>; both are copies by
  construction. The field \<^verbatim>\<open>initial_delay\<close> and the unused \<^verbatim>\<open>player_teams_timeouts\<close> and
  \<^verbatim>\<open>number_bots\<close> are left out.
\<close>

record 'z GameMaster =
  universe :: "'z CTFUniverse_scheme"
  game_time :: int
  noiser :: "UniverseNoiser option"
  player_teams :: "nat list list"
  viewers :: "('z CTFUniverse_scheme \<times> GameState) list list"
  step_iter :: "iterator option"
  game_state :: GameState

text \<open>
  What the controller calls of the universe and of the adjacency list. \<^verbatim>\<open>move_bot\<close>
  mutates the universe in place and returns the event dictionary; here it returns the new
  universe with it, an exception is the \<open>Inl\<close> of its result, and a call that raises
  leaves the universe as it was. \<^verbatim>\<open>get_legal_moves\<close> returns a dictionary from moves to
  positions, here the list of its items. \<^verbatim>\<open>enemy_food\<close> is only tested for truth; it is
  taken as the count of the interface description. \<open>stop\<close> is the constant
  \<^verbatim>\<open>datamodel.stop\<close>. \<^verbatim>\<open>a_star\<close> returns a path or raises NoPathException, which is
  \<open>None\<close>; \<^verbatim>\<open>pos_within\<close> returns a set of positions, here listed. The adjacency list
  is only asked about positions of bots, and is taken to know them.
\<close>

record 'z collaborators =
  move_bot :: "'z CTFUniverse_scheme \<Rightarrow> nat \<Rightarrow> move \<Rightarrow> exn + ('z CTFUniverse_scheme \<times> move_state)"
  get_legal_moves :: "'z CTFUniverse_scheme \<Rightarrow> position \<Rightarrow> (move \<times> position) list"
  enemy_food :: "'z CTFUniverse_scheme \<Rightarrow> nat \<Rightarrow> int"
  stop :: move
  a_star :: "position \<Rightarrow> position \<Rightarrow> position list option"
  pos_within :: "position \<Rightarrow> int \<Rightarrow> position list"

section \<open>Round bookkeeping\<close>

text \<open>
  \<^verbatim>\<open>GameMaster.__init__\<close>, given the universe that \<^verbatim>\<open>create_CTFUniverse\<close> built.
\<close>

definition initial_game_state :: GameState where
  "initial_game_state =
     \<lparr>bot_moved = [], food_eaten = [], bot_destroyed = [], timeout_teams = [0, 0],
      bot_id = None, round_index = None, running_time = 0, finished = False,
      team_time = [0, 0], team_wins = None, game_draw = None\<rparr>"

definition GameMaster_init ::
    "'z CTFUniverse_scheme \<Rightarrow> int \<Rightarrow> UniverseNoiser option \<Rightarrow> 'z GameMaster" where
  "GameMaster_init u gt nz =
     \<lparr>universe = u, game_time = gt, noiser = nz, player_teams = [], viewers = [],
      step_iter = None, game_state = initial_game_state\<rparr>"

definition register_team :: "'z GameMaster \<Rightarrow> 'z GameMaster" where
  "register_team gm = gm\<lparr>player_teams := player_teams gm @ [[]]\<rparr>"

definition register_viewer :: "'z GameMaster \<Rightarrow> 'z GameMaster" where
  "register_viewer gm = gm\<lparr>viewers := viewers gm @ [[]]\<rparr>"

text \<open>\<^verbatim>\<open>update_viewers\<close>: every viewer is handed a copy of universe and game state.\<close>

definition update_viewers :: "'z GameMaster \<Rightarrow> 'z GameMaster" where
  "update_viewers gm =
     gm\<lparr>viewers := map (\<lambda>v. v @ [(universe gm, game_state gm)]) (viewers gm)\<rparr>"

text \<open>
  \<^verbatim>\<open>prepare_next_round\<close>.
\<close>

definition prepare_next_round :: "'z GameMaster \<Rightarrow> 'z GameMaster" where
  "prepare_next_round gm =
     (if finished (game_state gm) then gm
      else
        let gs = (game_state gm)\<lparr>bot_id := None\<rparr> in
        (case round_index gs of
           None \<Rightarrow> gm\<lparr>game_state := gs\<lparr>round_index := Some 0\<rparr>\<rparr>
         | Some r \<Rightarrow>
             if r < game_time gm then gm\<lparr>game_state := gs\<lparr>round_index := Some (r + 1)\<rparr>\<rparr>
             else gm\<lparr>game_state := gs\<lparr>finished := True\<rparr>\<rparr>))"

text \<open>
  The comparison \<^verbatim>\<open>round_index >= game_time\<close> of \<^verbatim>\<open>check_finished\<close>. The source is
  Python 2, where \<^verbatim>\<open>None\<close> is smaller than every number.
\<close>

definition round_reached :: "int option \<Rightarrow> int \<Rightarrow> bool" where
  "round_reached r gt = (case r of None \<Rightarrow> False | Some n \<Rightarrow> n \<ge> gt)"

text \<open>
  \<^verbatim>\<open>food_left = [enemy_food(team.index) for team in teams]\<close> of \<^verbatim>\<open>check_finished\<close>.
\<close>

definition food_left :: "'z collaborators \<Rightarrow> 'z CTFUniverse_scheme \<Rightarrow> int list" where
  "food_left cs u = map (\<lambda>t. enemy_food cs u (team_id t)) (teams u)"

text \<open>\<^verbatim>\<open>all(xs)\<close> on a list of numbers: no element is zero.\<close>

definition py_all :: "int list \<Rightarrow> bool" where
  "py_all xs = list_all (\<lambda>n. n \<noteq> 0) xs"

definition check_finished :: "'z collaborators \<Rightarrow> 'z GameMaster \<Rightarrow> 'z GameMaster" where
  "check_finished cs gm =
     (let gs0 = (game_state gm)\<lparr>finished := False\<rparr>;
          gs1 = (if team_wins gs0 \<noteq> None \<or> game_draw gs0 \<noteq> None
                 then gs0\<lparr>finished := True\<rparr> else gs0)
      in if round_reached (round_index gs1) (game_time gm)
         then gm\<lparr>game_state := gs1\<lparr>finished := True, bot_id := None\<rparr>\<rparr>
         else if \<not> py_all (food_left cs (universe gm))
              then gm\<lparr>game_state := gs1\<lparr>finished := True\<rparr>\<rparr>
              else gm\<lparr>game_state := gs1\<rparr>)"

text \<open>
  \<^verbatim>\<open>check_winner\<close>. \<^verbatim>\<open>self.universe.teams[0]\<close> and \<^verbatim>\<open>teams[1]\<close> raise IndexError
  on a universe with fewer than two teams.
\<close>

definition check_winner :: "'z GameMaster \<Rightarrow> exn + 'z GameMaster" where
  "check_winner gm =
     (let gs = game_state gm in
      if \<not> finished gs then Inr gm
      else if team_wins gs \<noteq> None \<or> game_draw gs \<noteq> None then Inr gm
      else if length (teams (universe gm)) < 2 then Inl IndexError
      else
        let s0 = score (teams (universe gm) ! 0); s1 = score (teams (universe gm) ! 1) in
        if s0 > s1 then Inr (gm\<lparr>game_state := gs\<lparr>team_wins := Some 0\<rparr>\<rparr>)
        else if s0 < s1 then Inr (gm\<lparr>game_state := gs\<lparr>team_wins := Some 1\<rparr>\<rparr>)
        else Inr (gm\<lparr>game_state := gs\<lparr>game_draw := Some True\<rparr>\<rparr>))"

section \<open>Random choices and dictionaries\<close>

text \<open>
  \<^verbatim>\<open>random.choice(seq)\<close> returns the element at a random place of \<^verbatim>\<open>seq\<close> and raises
  IndexError when \<^verbatim>\<open>seq\<close> is empty. The number drawn is an input.
\<close>

definition random_choice :: "nat \<Rightarrow> 'a list \<Rightarrow> exn + 'a" where
  "random_choice r xs = (if xs = [] then Inl IndexError else Inr (xs ! (r mod length xs)))"

text \<open>The keys of a dictionary given by its items: every key once.\<close>

definition keys :: "('k \<times> 'v) list \<Rightarrow> 'k list" where
  "keys d = remdups (map fst d)"

text \<open>\<^verbatim>\<open>xs.remove(x)\<close>: drops the first \<^verbatim>\<open>x\<close>, ValueError when there is none.\<close>

definition list_remove :: "'a \<Rightarrow> 'a list \<Rightarrow> exn + 'a list" where
  "list_remove x xs = (if x \<in> set xs then Inr (remove1 x xs) else Inl ValueError)"

text \<open>
  \<^verbatim>\<open>random.choice(seq)\<close> is \<^verbatim>\<open>seq[int(random() * len(seq))]\<close>: the number drawn is a
  place of \<^verbatim>\<open>seq\<close>, and every place is as likely as any other. The chance that the
  element returned is \<open>x\<close> is therefore the share of the places whose draw returns \<open>x\<close>.
\<close>

definition choice_chance :: "'a list \<Rightarrow> 'a \<Rightarrow> real" where
  "choice_chance xs x =
     real (length (filter (\<lambda>r. random_choice r xs = Inr x) [0..<length xs])) / real (length xs)"

section \<open>The noiser\<close>

text \<open>
  Modelled from the spec: \<^verbatim>\<open>universe.enemy_bots(team_index)\<close> of the absent datamodel,
  the opponents of the mover's team. The result is the list of the places of these bots in
  \<^verbatim>\<open>universe.bots\<close>, standing for the references to the bot objects.
\<close>

definition enemy_bots :: "'z CTFUniverse_scheme \<Rightarrow> nat \<Rightarrow> nat list" where
  "enemy_bots u t = filter (\<lambda>i. team_index (bots u ! i) \<noteq> t) [0..<length (bots u)]"

text \<open>
  The \<^verbatim>\<open>try\<close> of \<^verbatim>\<open>uniform_noise\<close>: the length of the path, \<open>None\<close> on
  NoPathException.
\<close>

definition path_distance :: "'z collaborators \<Rightarrow> position \<Rightarrow> position \<Rightarrow> int option" where
  "path_distance cs p q =
     (case a_star cs p q of
        Some path \<Rightarrow> Some (int (length path))
      | None \<Rightarrow> None)"

definition too_far :: "UniverseNoiser \<Rightarrow> int option \<Rightarrow> bool" where
  "too_far nz distance = (case distance of None \<Rightarrow> True | Some d \<Rightarrow> d > sight_distance nz)"

text \<open>
  The body of the loop of \<^verbatim>\<open>uniform_noise\<close>, for the enemy at place \<open>i\<close> of
  \<^verbatim>\<open>universe.bots\<close>; \<open>me\<close> is the place of the mover and \<open>r\<close> the number drawn. The
  bot objects are shared with the universe, so the write goes to \<open>bots u\<close> and both
  positions are read from the universe as it is at that iteration.
\<close>

definition noise_one ::
    "'z collaborators \<Rightarrow> UniverseNoiser \<Rightarrow> nat \<Rightarrow> nat \<Rightarrow> nat \<Rightarrow> 'z CTFUniverse_scheme
      \<Rightarrow> exn + 'z CTFUniverse_scheme" where
  "noise_one cs nz r me i u =
     (let bt = bots u ! me; b = bots u ! i;
          distance = path_distance cs (current_pos bt) (current_pos b)
      in
      if too_far nz distance then
        (let possible_positions = pos_within cs (current_pos b) (noise_radius nz) in
         case random_choice r possible_positions of
           Inl e \<Rightarrow> Inl e
         | Inr p \<Rightarrow> Inr (u\<lparr>bots := (bots u)[i := b\<lparr>current_pos := p, noisy := True\<rparr>]\<rparr>))
      else Inr u)"

text \<open>
  The loop over \<^verbatim>\<open>bots_to_noise\<close>; \<open>n\<close> counts the iterations, and iteration \<open>n\<close>
  draws \<open>rnd n\<close>.
\<close>

fun noise_loop ::
    "'z collaborators \<Rightarrow> UniverseNoiser \<Rightarrow> (nat \<Rightarrow> nat) \<Rightarrow> nat \<Rightarrow> nat list \<Rightarrow> nat
      \<Rightarrow> 'z CTFUniverse_scheme \<Rightarrow> exn + 'z CTFUniverse_scheme" where
  "noise_loop cs nz rnd me [] n u = Inr u"
| "noise_loop cs nz rnd me (i # rest) n u =
     (case noise_one cs nz (rnd n) me i u of
        Inl e \<Rightarrow> Inl e
      | Inr u1 \<Rightarrow> noise_loop cs nz rnd me rest (Suc n) u1)"

definition uniform_noise ::
    "'z collaborators \<Rightarrow> UniverseNoiser \<Rightarrow> (nat \<Rightarrow> nat) \<Rightarrow> 'z CTFUniverse_scheme \<Rightarrow> nat
      \<Rightarrow> exn + 'z CTFUniverse_scheme" where
  "uniform_noise cs nz rnd u bot_index =
     (if bot_index \<ge> length (bots u) then Inl IndexError
      else noise_loop cs nz rnd bot_index
             (enemy_bots u (team_index (bots u ! bot_index))) 0 u)"

section \<open>One bot's turn\<close>

text \<open>
  What the outside world contributes to one turn: the answer of the team's \<^verbatim>\<open>_get_move\<close>
  to the bot index and the universe it is shown (a move or an exception), the two clock
  differences, and the numbers drawn by \<^verbatim>\<open>random.choice\<close> in the noiser and in the
  recovery.
\<close>

record 'z turn_input =
  get_move :: "nat \<Rightarrow> 'z CTFUniverse_scheme \<Rightarrow> exn + move"
  team_time_needed :: real
  elapsed :: real
  noise_choice :: "nat \<Rightarrow> nat"
  fallback_choice :: nat

text \<open>\<^verbatim>\<open>for k, v in move_state.iteritems(): self.game_state[k] += v\<close>\<close>

definition merge_move_state :: "move_state \<Rightarrow> GameState \<Rightarrow> GameState" where
  "merge_move_state ms gs =
     gs\<lparr>bot_moved := bot_moved gs @ moved ms,
        food_eaten := food_eaten gs @ eaten ms,
        bot_destroyed := bot_destroyed gs @ destroyed ms\<rparr>"

text \<open>
  \<^verbatim>\<open>player_team._get_move(bot.index, universe_copy)\<close> is called: the team has one more
  request. \<^verbatim>\<open>self.player_teams[bot.team_index]\<close> has been read before, see \<open>play_bot\<close>.
\<close>

definition asked :: "Bot \<Rightarrow> 'z GameMaster \<Rightarrow> 'z GameMaster" where
  "asked bt gm =
     gm\<lparr>player_teams := (player_teams gm)
           [team_index bt := player_teams gm ! team_index bt @ [index bt]]\<rparr>"

text \<open>
  The body of the \<^verbatim>\<open>try\<close> of \<^verbatim>\<open>_play_bot\<close>. An exception comes with the state the
  controller is in when it is raised.
\<close>

definition try_move ::
    "'z collaborators \<Rightarrow> 'z turn_input \<Rightarrow> Bot \<Rightarrow> 'z GameMaster
      \<Rightarrow> (exn \<times> 'z GameMaster) + 'z GameMaster" where
  "try_move cs inp bt gm =
     (case (case noiser gm of
              None \<Rightarrow> Inr (universe gm)
            | Some nz \<Rightarrow> uniform_noise cs nz (noise_choice inp) (universe gm) (index bt)) of
        Inl e \<Rightarrow> Inl (e, gm)
      | Inr universe_copy \<Rightarrow>
          let t = team_index bt; gm1 = asked bt gm in
          (case get_move inp (index bt) universe_copy of
             Inl e \<Rightarrow> Inl (e, gm1)
           | Inr move \<Rightarrow>
               let gs = game_state gm1 in
               if t \<ge> length (team_time gs) then Inl (IndexError, gm1)
               else
                 let gm2 = gm1\<lparr>game_state :=
                             gs\<lparr>team_time := (team_time gs)[t := team_time gs ! t + team_time_needed inp]\<rparr>\<rparr>
                 in
                 (case move_bot cs (universe gm2) (index bt) move of
                    Inl e \<Rightarrow> Inl (e, gm2)
                  | Inr (u', ms) \<Rightarrow>
                      Inr (gm2\<lparr>universe := u',
                              game_state := merge_move_state ms (game_state gm2)\<rparr>))))"

text \<open>
  The move of the recovery: the keys of the legal moves without \<^verbatim>\<open>stop\<close>, or
  \<^verbatim>\<open>[stop]\<close> when nothing else is left, and a random one of them.
\<close>

definition fallback_moves ::
    "'z collaborators \<Rightarrow> 'z CTFUniverse_scheme \<Rightarrow> position \<Rightarrow> exn + move list" where
  "fallback_moves cs u pos =
     (case list_remove (stop cs) (keys (get_legal_moves cs u pos)) of
        Inl e \<Rightarrow> Inl e
      | Inr moves \<Rightarrow> Inr (if moves = [] then [stop cs] else moves))"

definition fallback_move ::
    "'z collaborators \<Rightarrow> nat \<Rightarrow> 'z CTFUniverse_scheme \<Rightarrow> position \<Rightarrow> exn + move" where
  "fallback_move cs r u pos =
     (case fallback_moves cs u pos of
        Inl e \<Rightarrow> Inl e
      | Inr moves \<Rightarrow> random_choice r moves)"

text \<open>
  The handler of IllegalMoveException and PlayerTimeout, first its bookkeeping: the count
  of the team goes up and, when it is \<^verbatim>\<open>MAX_TIMEOUTS\<close>, the other team wins.
\<close>

definition count_timeout :: "Bot \<Rightarrow> GameState \<Rightarrow> GameState" where
  "count_timeout bt gs =
     (let t = team_index bt;
          gs1 = gs\<lparr>timeout_teams := (timeout_teams gs)[t := timeout_teams gs ! t + 1]\<rparr>
      in if timeout_teams gs1 ! t = MAX_TIMEOUTS
         then gs1\<lparr>team_wins := Some (1 - int t)\<rparr> else gs1)"

text \<open>
  Then the move, for either outcome of the test. \<^verbatim>\<open>timeout_teams[team_index]\<close> raises
  IndexError when there is no such team; an exception raised inside the handler is not
  caught.
\<close>

definition recover_timeout ::
    "'z collaborators \<Rightarrow> 'z turn_input \<Rightarrow> Bot \<Rightarrow> 'z GameMaster \<Rightarrow> exn + 'z GameMaster" where
  "recover_timeout cs inp bt gm =
     (if team_index bt \<ge> length (timeout_teams (game_state gm)) then Inl IndexError
      else
        let gs = count_timeout bt (game_state gm) in
        (case fallback_move cs (fallback_choice inp) (universe gm) (current_pos bt) of
           Inl e \<Rightarrow> Inl e
         | Inr move \<Rightarrow>
             (case move_bot cs (universe gm) (index bt) move of
                Inl e \<Rightarrow> Inl e
              | Inr (u', ms) \<Rightarrow>
                  Inr (gm\<lparr>universe := u', game_state := merge_move_state ms gs\<rparr>))))"

text \<open>The handler of PlayerDisconnected.\<close>

definition disqualify_disconnected :: "Bot \<Rightarrow> 'z GameMaster \<Rightarrow> 'z GameMaster" where
  "disqualify_disconnected bt gm =
     gm\<lparr>game_state := (game_state gm)\<lparr>team_wins := Some (1 - int (team_index bt))\<rparr>\<rparr>"

text \<open>The first four assignments of \<^verbatim>\<open>_play_bot\<close>.\<close>

definition begin_turn :: "Bot \<Rightarrow> 'z GameMaster \<Rightarrow> 'z GameMaster" where
  "begin_turn bt gm =
     gm\<lparr>game_state := (game_state gm)\<lparr>bot_id := Some (index bt), bot_moved := [],
                                       food_eaten := [], bot_destroyed := []\<rparr>\<rparr>"

text \<open>\<^verbatim>\<open>_play_bot\<close>.\<close>

definition play_bot ::
    "'z collaborators \<Rightarrow> 'z turn_input \<Rightarrow> Bot \<Rightarrow> 'z GameMaster \<Rightarrow> exn + 'z GameMaster" where
  "play_bot cs inp bt gm =
     (let gm0 = begin_turn bt gm in
      if team_index bt \<ge> length (player_teams gm0) then Inl IndexError
      else
        (case try_move cs inp bt gm0 of
           Inr gm1 \<Rightarrow> Inr gm1
         | Inl (e, gm1) \<Rightarrow>
             if e = IllegalMoveException \<or> e = PlayerTimeout then recover_timeout cs inp bt gm1
             else if e = PlayerDisconnected then Inr (disqualify_disconnected bt gm1)
             else Inl e))"

section \<open>The round iterator\<close>

text \<open>
  \<^verbatim>\<open>xs[i]\<close> for a Python integer \<^verbatim>\<open>i\<close> is defined from \<^verbatim>\<open>-len(xs)\<close> up to
  \<^verbatim>\<open>len(xs) - 1\<close>.
\<close>

definition index_ok :: "int \<Rightarrow> 'a list \<Rightarrow> bool" where
  "index_ok i xs = (- int (length xs) \<le> i \<and> i < int (length xs))"

text \<open>
  \<^verbatim>\<open>print_possible_winner\<close> writes one line to the standard output, which is not part of
  the state; it reads the winner and the loser, or both teams, from \<^verbatim>\<open>universe.teams\<close>.
\<close>

definition print_possible_winner :: "'z GameMaster \<Rightarrow> exn + 'z GameMaster" where
  "print_possible_winner gm =
     (case team_wins (game_state gm) of
        Some winning_team \<Rightarrow>
          if index_ok winning_team (teams (universe gm))
             \<and> index_ok (1 - winning_team) (teams (universe gm))
          then Inr gm else Inl IndexError
      | None \<Rightarrow>
          if game_draw (game_state gm) \<noteq> None
          then (if length (teams (universe gm)) < 2 then Inl IndexError else Inr gm)
          else Inr gm)"

text \<open>
  \<^verbatim>\<open>self.check_finished(); self.check_winner(); self.print_possible_winner()\<close>, as the
  iterator runs them before the first bot and after the last.
\<close>

definition finish_round :: "'z collaborators \<Rightarrow> 'z GameMaster \<Rightarrow> exn + 'z GameMaster" where
  "finish_round cs gm =
     (case check_winner (check_finished cs gm) of
        Inl e \<Rightarrow> Inl e
      | Inr gm1 \<Rightarrow> print_possible_winner gm1)"

text \<open>What a call of \<^verbatim>\<open>next\<close> on the generator ends with.\<close>

datatype signal = Yield | StopIteration | GameFinished

text \<open>
  The \<^verbatim>\<open>for\<close> loop of \<^verbatim>\<open>_play_bot_iterator\<close>, entered or resumed with the list iterator
  at place \<open>k\<close>, up to the next \<^verbatim>\<open>yield\<close> or the end of the generator. The list iterator
  compares \<open>k\<close> with the length the list has at that moment. \<open>inps k\<close> is what the outside
  world contributes to the turn of the bot at place \<open>k\<close>.
\<close>

definition iterate_bots ::
    "'z collaborators \<Rightarrow> (nat \<Rightarrow> 'z turn_input) \<Rightarrow> nat \<Rightarrow> 'z GameMaster
      \<Rightarrow> exn + (signal \<times> 'z GameMaster)" where
  "iterate_bots cs inps k gm =
     (if k < length (bots (universe gm)) then
        (case play_bot cs (inps k) (bots (universe gm) ! k) gm of
           Inl e \<Rightarrow> Inl e
         | Inr gm1 \<Rightarrow>
             let gm2 = gm1\<lparr>game_state := (game_state gm1)
                         \<lparr>running_time := running_time (game_state gm1) + elapsed (inps k)\<rparr>\<rparr>
             in Inr (Yield, (update_viewers gm2)\<lparr>step_iter := Some (Suspended (Suc k))\<rparr>))
      else
        (case finish_round cs gm of
           Inl e \<Rightarrow> Inl e
         | Inr gm1 \<Rightarrow>
             Inr (StopIteration,
                  (if finished (game_state gm1) then update_viewers gm1 else gm1)
                    \<lparr>step_iter := Some Exhausted\<rparr>)))"

text \<open>
  The head of \<^verbatim>\<open>_play_bot_iterator\<close>, before its test of \<open>finished\<close>.
\<close>

definition begin_round :: "'z collaborators \<Rightarrow> 'z GameMaster \<Rightarrow> exn + 'z GameMaster" where
  "begin_round cs gm =
     (let gm1 = prepare_next_round gm in
      if \<not> finished (game_state gm1) then finish_round cs gm1 else Inr gm1)"

text \<open>
  \<^verbatim>\<open>self._step_iter.next()\<close>. An exception other than the two signals ends the model's
  run with \<open>Inl\<close>; \<^verbatim>\<open>next\<close> on \<^verbatim>\<open>None\<close> is an AttributeError.
\<close>

definition iter_next ::
    "'z collaborators \<Rightarrow> (nat \<Rightarrow> 'z turn_input) \<Rightarrow> 'z GameMaster
      \<Rightarrow> exn + (signal \<times> 'z GameMaster)" where
  "iter_next cs inps gm =
     (case step_iter gm of
        None \<Rightarrow> Inl AttributeError
      | Some Created \<Rightarrow>
          (case begin_round cs gm of
             Inl e \<Rightarrow> Inl e
           | Inr gm2 \<Rightarrow>
               if finished (game_state gm2)
               then Inr (GameFinished, (update_viewers gm2)\<lparr>step_iter := Some Exhausted\<rparr>)
               else iterate_bots cs inps 0 gm2)
      | Some (Suspended k) \<Rightarrow> iterate_bots cs inps k gm
      | Some Exhausted \<Rightarrow> Inr (StopIteration, gm))"

text \<open>
  \<^verbatim>\<open>if self._step_iter is None: self._step_iter = self._play_bot_iterator()\<close>
\<close>

definition ensure_iter :: "'z GameMaster \<Rightarrow> 'z GameMaster" where
  "ensure_iter gm = (if step_iter gm = None then gm\<lparr>step_iter := Some Created\<rparr> else gm)"

text \<open>
  The loop \<^verbatim>\<open>while True: self._step_iter.next()\<close> of \<^verbatim>\<open>play_round\<close> with its two
  handlers. Nothing bounds the loop when \<^verbatim>\<open>move_bot\<close> lets the list of bots grow, so the
  result is optional: \<open>None\<close> is a loop that does not end.
\<close>

partial_function (option) round_loop ::
    "'z collaborators \<Rightarrow> (nat \<Rightarrow> 'z turn_input) \<Rightarrow> 'z GameMaster
      \<Rightarrow> (exn + 'z GameMaster) option" where
  "round_loop cs inps gm =
     (case iter_next cs inps gm of
        Inl e \<Rightarrow> Some (Inl e)
      | Inr (sig, gm1) \<Rightarrow>
          (case sig of
             Yield \<Rightarrow> round_loop cs inps gm1
           | StopIteration \<Rightarrow> Some (Inr (gm1\<lparr>step_iter := None\<rparr>))
           | GameFinished \<Rightarrow> Some (Inr gm1)))"

definition play_round ::
    "'z collaborators \<Rightarrow> (nat \<Rightarrow> 'z turn_input) \<Rightarrow> 'z GameMaster
      \<Rightarrow> (exn + 'z GameMaster) option" where
  "play_round cs inps gm =
     (if finished (game_state gm) then Some (Inr gm)
      else round_loop cs inps (ensure_iter gm))"

text \<open>
  \<^verbatim>\<open>play_step\<close>, which calls itself when the generator was at its end. At most one bot
  moves, so one turn input is enough.
\<close>

partial_function (option) play_step ::
    "'z collaborators \<Rightarrow> 'z turn_input \<Rightarrow> 'z GameMaster \<Rightarrow> (exn + 'z GameMaster) option" where
  "play_step cs inp gm =
     (if finished (game_state gm) then Some (Inr gm)
      else
        (case iter_next cs (\<lambda>k. inp) (ensure_iter gm) of
           Inl e \<Rightarrow> Some (Inl e)
         | Inr (sig, gm1) \<Rightarrow>
             (case sig of
                Yield \<Rightarrow> Some (Inr gm1)
              | StopIteration \<Rightarrow> play_step cs inp (gm1\<lparr>step_iter := None\<rparr>)
              | GameFinished \<Rightarrow> Some (Inr gm1))))"

text \<open>
  \<^verbatim>\<open>set_initial\<close>: the calls to the teams and viewers carry copies and leave the game
  master as it is. Reading \<^verbatim>\<open>universe.teams[team_idx]\<close> for every registered team, or
  else the test that follows, raises IndexError unless both lists have the same length.
\<close>

definition set_initial :: "'z GameMaster \<Rightarrow> exn + 'z GameMaster" where
  "set_initial gm =
     (if length (player_teams gm) \<noteq> length (teams (universe gm)) then Inl IndexError
      else Inr gm)"

text \<open>
  The loop \<^verbatim>\<open>while not finished: self.play_round()\<close> of \<^verbatim>\<open>play\<close>; \<open>rounds n\<close> are the
  inputs to the call of \<^verbatim>\<open>play_round\<close> number \<open>n\<close>.
\<close>

partial_function (option) play_loop ::
    "'z collaborators \<Rightarrow> (nat \<Rightarrow> nat \<Rightarrow> 'z turn_input) \<Rightarrow> nat \<Rightarrow> 'z GameMaster
      \<Rightarrow> (exn + 'z GameMaster) option" where
  "play_loop cs rounds n gm =
     (if finished (game_state gm) then Some (Inr gm)
      else
        (case play_round cs (rounds n) gm of
           None \<Rightarrow> None
         | Some (Inl e) \<Rightarrow> Some (Inl e)
         | Some (Inr gm1) \<Rightarrow> play_loop cs rounds (Suc n) gm1))"

text \<open>\<^verbatim>\<open>play\<close>; the initial delay is left out.\<close>

definition play ::
    "'z collaborators \<Rightarrow> (nat \<Rightarrow> nat \<Rightarrow> 'z turn_input) \<Rightarrow> 'z GameMaster
      \<Rightarrow> (exn + 'z GameMaster) option" where
  "play cs rounds gm =
     (case set_initial gm of
        Inl e \<Rightarrow> Some (Inl e)
      | Inr gm0 \<Rightarrow>
          (case play_loop cs rounds 0 gm0 of
             None \<Rightarrow> None
           | Some (Inl e) \<Rightarrow> Some (Inl e)
           | Some (Inr gm1) \<Rightarrow> Some (Inr (update_viewers gm1))))"

text \<open>The public operations that drive a match, and a sequence of them.\<close>

datatype 'z operation =
    PlayStep "'z turn_input"
  | PlayRound "nat \<Rightarrow> 'z turn_input"
  | Play "nat \<Rightarrow> nat \<Rightarrow> 'z turn_input"

fun run_op ::
    "'z collaborators \<Rightarrow> 'z operation \<Rightarrow> 'z GameMaster \<Rightarrow> (exn + 'z GameMaster) option" where
  "run_op cs (PlayStep inp) gm = play_step cs inp gm"
| "run_op cs (PlayRound inps) gm = play_round cs inps gm"
| "run_op cs (Play rounds) gm = play cs rounds gm"

fun run_ops ::
    "'z collaborators \<Rightarrow> 'z operation list \<Rightarrow> 'z GameMaster \<Rightarrow> (exn + 'z GameMaster) option" where
  "run_ops cs [] gm = Some (Inr gm)"
| "run_ops cs (op # ops) gm =
     (case run_op cs op gm of
        None \<Rightarrow> None
      | Some (Inl e) \<Rightarrow> Some (Inl e)
      | Some (Inr gm1) \<Rightarrow> run_ops cs ops gm1)"

text \<open>The number of times the teams have been asked for a move: the number of bot turns.\<close>

definition moves_requested :: "'z GameMaster \<Rightarrow> nat" where
  "moves_requested gm = sum_list (map length (player_teams gm))"

section \<open>Relations between a state and a later state\<close>




text \<open>
  From an unfinished state on, every viewer has been notified once for each move that was
  requested, and once more if the match is finished now, the last time with the state as it
  is now.
\<close>

definition notified :: "'z GameMaster \<Rightarrow> 'z GameMaster \<Rightarrow> bool" where
  "notified gm gm' =
     (\<not> finished (game_state gm) \<longrightarrow>
        (\<exists>n. moves_requested gm' = moves_requested gm + n
           \<and> length (viewers gm') = length (viewers gm)
           \<and> (\<forall>i < length (viewers gm).
                 length (viewers gm' ! i)
                   = length (viewers gm ! i) + n + (if finished (game_state gm') then 1 else 0)
                 \<and> (finished (game_state gm')
                      \<longrightarrow> (\<exists>v. viewers gm' ! i = v @ [(universe gm', game_state gm')])))))"

text \<open>A winner that was set is still set.\<close>

definition winner_kept :: "'z GameMaster \<Rightarrow> 'z GameMaster \<Rightarrow> bool" where
  "winner_kept gm gm' =
     (team_wins (game_state gm) \<noteq> None \<longrightarrow> team_wins (game_state gm') \<noteq> None)"

section \<open>What makes the loops end\<close>

text \<open>
  The list \<^verbatim>\<open>universe.bots\<close> is built once; \<^verbatim>\<open>move_bot\<close> moves bots and does not add
  or remove any. Of the collaborators this is all that the loops need to come to an end.
\<close>

definition bots_kept :: "'z collaborators \<Rightarrow> bool" where
  "bots_kept cs =
     (\<forall>u i m u' ms. move_bot cs u i m = Inr (u', ms) \<longrightarrow> length (bots u') = length (bots u))"

text \<open>
  The bots that have not had their turn in the round that the iterator is in; one more
  before the head of a round has been run.
\<close>

definition turns_left :: "'z GameMaster \<Rightarrow> nat" where
  "turns_left gm =
     (case step_iter gm of
        Some (Suspended k) \<Rightarrow> length (bots (universe gm)) - k
      | Some Created \<Rightarrow> Suc (length (bots (universe gm)))
      | _ \<Rightarrow> 0)"

text \<open>
  The rounds that may still be begun, twice, plus 2 inside a round and 1 between two
  rounds.
\<close>

definition rounds_left :: "'z GameMaster \<Rightarrow> nat" where
  "rounds_left gm =
     (case round_index (game_state gm) of
        None \<Rightarrow> Suc (nat (game_time gm))
      | Some r \<Rightarrow> nat (game_time gm - r))"

definition steps_left :: "'z GameMaster \<Rightarrow> nat" where
  "steps_left gm =
     2 * rounds_left gm
     + (case step_iter gm of None \<Rightarrow> 1 | Some Created \<Rightarrow> 1 | _ \<Rightarrow> 2)"

text \<open>
  A later state is nearer to the end of the match: it is finished, or it has fewer steps
  left, or as many at most when it is inside a round.
\<close>

definition nearer :: "'z GameMaster \<Rightarrow> 'z GameMaster \<Rightarrow> bool" where
  "nearer gm gm' =
     (finished (game_state gm')
      \<or> (if \<exists>k. step_iter gm' = Some (Suspended k)
          then steps_left gm' \<le> steps_left gm
          else steps_left gm' < steps_left gm))"

section \<open>An example universe\<close>

text \<open>
  A corridor of four cells \<open>(0, y) \<dots> (3, y)\<close> per row, rows not connected, used to run
  the controller on concrete inputs. A bot may stand still, step east below \<open>x = 3\<close> and
  step west above \<open>x = 0\<close>.
\<close>

definition corridor_legal :: "position \<Rightarrow> (move \<times> position) list" where
  "corridor_legal p =
     [((0, 0), p)]
     @ (if fst p < 3 then [((1, 0), (fst p + 1, snd p))] else [])
     @ (if 0 < fst p then [((- 1, 0), (fst p - 1, snd p))] else [])"

definition no_events :: move_state where
  "no_events = \<lparr>moved = [], eaten = [], destroyed = []\<rparr>"

definition corridor_move_bot ::
    "CTFUniverse \<Rightarrow> nat \<Rightarrow> move \<Rightarrow> exn + (CTFUniverse \<times> move_state)" where
  "corridor_move_bot u i m =
     (if i \<ge> length (bots u) then Inl IndexError
      else
        (case map_of (corridor_legal (current_pos (bots u ! i))) m of
           None \<Rightarrow> Inl IllegalMoveException
         | Some p \<Rightarrow> Inr (u\<lparr>bots := (bots u)[i := (bots u ! i)\<lparr>current_pos := p\<rparr>]\<rparr>, no_events)))"

primrec walk :: "int \<Rightarrow> int \<Rightarrow> int \<Rightarrow> nat \<Rightarrow> position list" where
  "walk x y d 0 = []"
| "walk x y d (Suc n) = (x + d, y) # walk (x + d) y d n"

definition corridor_a_star :: "position \<Rightarrow> position \<Rightarrow> position list option" where
  "corridor_a_star p q =
     (if snd p = snd q
      then Some (walk (fst p) (snd p) (sgn (fst q - fst p)) (nat \<bar>fst q - fst p\<bar>))
      else None)"

definition corridor_pos_within :: "position \<Rightarrow> int \<Rightarrow> position list" where
  "corridor_pos_within p r =
     filter (\<lambda>c. \<bar>fst c - fst p\<bar> \<le> r) [(0, snd p), (1, snd p), (2, snd p), (3, snd p)]"

definition corridor :: "unit collaborators" where
  "corridor =
     \<lparr>move_bot = corridor_move_bot,
      get_legal_moves = (\<lambda>u p. corridor_legal p),
      enemy_food = (\<lambda>u t. 1),
      stop = (0, 0),
      a_star = corridor_a_star,
      pos_within = corridor_pos_within\<rparr>"

definition two_bots :: CTFUniverse where
  "two_bots =
     \<lparr>teams = [\<lparr>team_id = 0, name = ''left'', score = 0\<rparr>,
               \<lparr>team_id = 1, name = ''right'', score = 0\<rparr>],
      bots = [\<lparr>index = 0, team_index = 0, current_pos = (0, 0), noisy = False\<rparr>,
              \<lparr>index = 1, team_index = 1, current_pos = (3, 0), noisy = False\<rparr>]\<rparr>"

text \<open>A game master on the corridor with both teams registered and one viewer.\<close>

definition example_master :: "int \<Rightarrow> unit GameMaster" where
  "example_master gt =
     register_viewer (register_team (register_team (GameMaster_init two_bots gt None)))"

text \<open>The example master at the end of a match, with the given scores.\<close>

definition with_scores :: "int \<Rightarrow> int \<Rightarrow> CTFUniverse" where
  "with_scores a b =
     two_bots\<lparr>teams := [\<lparr>team_id = 0, name = ''left'', score = a\<rparr>,
                        \<lparr>team_id = 1, name = ''right'', score = b\<rparr>]\<rparr>"

definition ended_master :: "int \<Rightarrow> int \<Rightarrow> unit GameMaster" where
  "ended_master a b =
     (example_master 50)\<lparr>universe := with_scores a b,
        game_state := initial_game_state\<lparr>round_index := Some 50, finished := True\<rparr>\<rparr>"

text \<open>
  Three ways a team may behave in a turn: it does not answer in time, its connection is
  gone, or it answers with the given move.
\<close>

definition timing_out :: "unit turn_input" where
  "timing_out =
     \<lparr>get_move = (\<lambda>i u. Inl PlayerTimeout), team_time_needed = 3, elapsed = 3,
      noise_choice = (\<lambda>n. 0), fallback_choice = 0\<rparr>"

definition disconnecting :: "unit turn_input" where
  "disconnecting =
     \<lparr>get_move = (\<lambda>i u. Inl PlayerDisconnected), team_time_needed = 0, elapsed = 0,
      noise_choice = (\<lambda>n. 0), fallback_choice = 0\<rparr>"

definition answering :: "move \<Rightarrow> unit turn_input" where
  "answering m =
     \<lparr>get_move = (\<lambda>i u. Inr m), team_time_needed = 0, elapsed = 0,
      noise_choice = (\<lambda>n. 0), fallback_choice = 0\<rparr>"

text \<open>The example master in its first round, team 0 having timed out four times.\<close>

definition four_timeouts :: "unit GameMaster" where
  "four_timeouts =
     (example_master 50)\<lparr>step_iter := Some (Suspended 0),
        game_state := initial_game_state\<lparr>round_index := Some 0, timeout_teams := [4, 0]\<rparr>\<rparr>"

text \<open>The example master in its first round, before the first bot moves.\<close>

definition first_round :: "unit GameMaster" where
  "first_round =
     (example_master 50)\<lparr>step_iter := Some (Suspended 0),
        game_state := initial_game_state\<lparr>round_index := Some 0\<rparr>\<rparr>"




text \<open>Legal moves without the move that stands still: a one-way corridor.\<close>

definition one_way :: "unit collaborators" where
  "one_way = corridor\<lparr>get_legal_moves := (\<lambda>u p. [((1, 0), (fst p + 1, snd p))])\<rparr>"







text \<open>
  The first round after the team of the first bot has been disconnected, and the steps that
  lead there and on: both teams are disconnected, one after the other, in the same round.
\<close>

definition first_gone :: "unit GameMaster" where
  "first_gone =
     first_round\<lparr>player_teams := [[0], []],
        viewers := [[(two_bots,
                      (game_state first_round)\<lparr>bot_id := Some 0, team_wins := Some 1\<rparr>)]],
        step_iter := Some (Suspended 1),
        game_state := (game_state first_round)\<lparr>bot_id := Some 0, team_wins := Some 1\<rparr>\<rparr>"



text \<open>A match of one round, played by \<^verbatim>\<open>play\<close>, in which both bots stand still.\<close>

definition short_match :: "(exn + unit GameMaster) option" where
  "short_match = play corridor (\<lambda>n k. answering (0, 0)) (example_master 1)"

text \<open>
  The round in which team 0 times out for the fifth time and the second bot, having its
  turn after that, answers with a step to the west.
\<close>

definition timed_out_round :: "(exn + unit GameMaster) option" where
  "timed_out_round =
     play_round corridor (\<lambda>k. if k = 0 then timing_out else answering (- 1, 0)) four_timeouts"

text \<open>The rest of the round after the team of the first bot has been disconnected.\<close>

definition gone_round :: "(exn + unit GameMaster) option" where
  "gone_round = play_round corridor (\<lambda>k. answering (- 1, 0)) first_gone"

section \<open>Termination test and winner determination\<close>

lemma finished_check_finished:
  "finished (game_state (check_finished cs gm)) \<longleftrightarrow>
     team_wins (game_state gm) \<noteq> None \<or> game_draw (game_state gm) \<noteq> None
     \<or> round_reached (round_index (game_state gm)) (game_time gm)
     \<or> \<not> py_all (food_left cs (universe gm))"
  by (simp add: check_finished_def Let_def)

section \<open>Facts about one turn\<close>

lemma try_move_Inl:
  assumes "try_move cs inp bt gm = Inl (e, gm1)"
  shows "universe gm1 = universe gm" and "viewers gm1 = viewers gm"
    and "step_iter gm1 = step_iter gm" and "game_time gm1 = game_time gm"
    and "noiser gm1 = noiser gm"
    and "length (player_teams gm1) = length (player_teams gm)"
    and "timeout_teams (game_state gm1) = timeout_teams (game_state gm)"
    and "team_wins (game_state gm1) = team_wins (game_state gm)"
    and "game_draw (game_state gm1) = game_draw (game_state gm)"
    and "finished (game_state gm1) = finished (game_state gm)"
    and "round_index (game_state gm1) = round_index (game_state gm)"
proof -
  let ?timed = "(asked bt gm)\<lparr>game_state := (game_state gm)\<lparr>team_time := (team_time (game_state gm))
                    [team_index bt := team_time (game_state gm) ! team_index bt + team_time_needed inp]\<rparr>\<rparr>"
  from assms have "gm1 = gm \<or> gm1 = asked bt gm \<or> gm1 = ?timed"
    unfolding try_move_def Let_def
    by (simp add: asked_def split: sum.splits if_splits prod.splits)
  then show "universe gm1 = universe gm" and "viewers gm1 = viewers gm"
    and "step_iter gm1 = step_iter gm" and "game_time gm1 = game_time gm"
    and "noiser gm1 = noiser gm"
    and "length (player_teams gm1) = length (player_teams gm)"
    and "timeout_teams (game_state gm1) = timeout_teams (game_state gm)"
    and "team_wins (game_state gm1) = team_wins (game_state gm)"
    and "game_draw (game_state gm1) = game_draw (game_state gm)"
    and "finished (game_state gm1) = finished (game_state gm)"
    and "round_index (game_state gm1) = round_index (game_state gm)"
    by (auto simp: asked_def)
qed

lemma random_choice_mem: "random_choice r xs = Inr x \<Longrightarrow> x \<in> set xs"
  by (auto simp: random_choice_def split: if_splits)

lemma set_keys: "set (keys d) = fst ` set d"
  by (simp add: keys_def)

lemma distinct_keys: "distinct (keys d)"
  by (simp add: keys_def)

lemma fallback_moves_Inr:
  assumes "fallback_moves cs u pos = Inr ms"
  shows "stop cs \<in> fst ` set (get_legal_moves cs u pos)"
    and "ms \<noteq> []"
    and "set ms \<subseteq> fst ` set (get_legal_moves cs u pos)"
    and "(\<exists>m' \<in> fst ` set (get_legal_moves cs u pos). m' \<noteq> stop cs) \<Longrightarrow> stop cs \<notin> set ms"
proof -
  define ks where "ks = keys (get_legal_moves cs u pos)"
  have ks: "set ks = fst ` set (get_legal_moves cs u pos)" and d: "distinct ks"
    by (simp_all add: ks_def set_keys distinct_keys)
  from assms have mem: "stop cs \<in> set ks"
    unfolding fallback_moves_def list_remove_def ks_def [symmetric]
    by (simp split: if_splits)
  with assms have ms: "ms = (if remove1 (stop cs) ks = [] then [stop cs] else remove1 (stop cs) ks)"
    unfolding fallback_moves_def list_remove_def ks_def [symmetric]
    by simp
  have rem: "set (remove1 (stop cs) ks) = set ks - {stop cs}"
    using d by simp
  show "stop cs \<in> fst ` set (get_legal_moves cs u pos)"
    using mem ks by simp
  show "ms \<noteq> []"
    unfolding ms by simp
  have "set ms \<subseteq> set ks"
    unfolding ms using mem rem by (cases "remove1 (stop cs) ks = []") auto
  then show "set ms \<subseteq> fst ` set (get_legal_moves cs u pos)"
    unfolding ks .
  show "stop cs \<notin> set ms" if "\<exists>m' \<in> fst ` set (get_legal_moves cs u pos). m' \<noteq> stop cs"
  proof -
    from that obtain m' where "m' \<in> set ks" "m' \<noteq> stop cs"
      unfolding ks [symmetric] by blast
    then have "m' \<in> set (remove1 (stop cs) ks)"
      unfolding rem by simp
    then have ne: "remove1 (stop cs) ks \<noteq> []"
      by (cases "remove1 (stop cs) ks") simp_all
    have "stop cs \<notin> set (remove1 (stop cs) ks)"
      unfolding rem by simp
    with ne show ?thesis
      unfolding ms by simp
  qed
qed

lemma fallback_move_Inr:
  assumes "fallback_move cs r u pos = Inr m"
  shows "stop cs \<in> fst ` set (get_legal_moves cs u pos)"
    and "m \<in> fst ` set (get_legal_moves cs u pos)"
    and "(\<exists>m' \<in> fst ` set (get_legal_moves cs u pos). m' \<noteq> stop cs) \<Longrightarrow> m \<noteq> stop cs"
proof -
  from assms obtain ms where ms: "fallback_moves cs u pos = Inr ms" and m: "random_choice r ms = Inr m"
    by (auto simp: fallback_move_def split: sum.splits)
  from m have mem: "m \<in> set ms" by (rule random_choice_mem)
  show "stop cs \<in> fst ` set (get_legal_moves cs u pos)"
    by (rule fallback_moves_Inr(1) [OF ms])
  show "m \<in> fst ` set (get_legal_moves cs u pos)"
    using fallback_moves_Inr(3) [OF ms] mem by blast
  show "m \<noteq> stop cs" if "\<exists>m' \<in> fst ` set (get_legal_moves cs u pos). m' \<noteq> stop cs"
    using fallback_moves_Inr(4) [OF ms that] mem by blast
qed

lemma fallback_move_no_stop:
  "stop cs \<notin> fst ` set (get_legal_moves cs u pos) \<Longrightarrow> fallback_move cs r u pos = Inl ValueError"
  by (simp add: fallback_move_def fallback_moves_def list_remove_def set_keys)

lemma fallback_move_total:
  assumes "stop cs \<in> fst ` set (get_legal_moves cs u pos)"
  shows "\<exists>m. fallback_move cs r u pos = Inr m"
proof -
  from assms obtain ms where ms: "fallback_moves cs u pos = Inr ms"
    by (simp add: fallback_moves_def list_remove_def set_keys)
  from fallback_moves_Inr(2) [OF ms] show ?thesis
    by (simp add: fallback_move_def ms random_choice_def)
qed

text \<open>The game state that the handler of a timeout leaves, before the events are merged.\<close>

lemma recover_timeout_Inr:
  assumes "recover_timeout cs inp bt gm = Inr gm'"
  shows "\<exists>m u' ms.
    team_index bt < length (timeout_teams (game_state gm)) \<and>
    fallback_move cs (fallback_choice inp) (universe gm) (current_pos bt) = Inr m \<and>
    move_bot cs (universe gm) (index bt) m = Inr (u', ms) \<and>
    gm' = gm\<lparr>universe := u', game_state := merge_move_state ms (count_timeout bt (game_state gm))\<rparr>"
proof -
  from assms have t: "team_index bt < length (timeout_teams (game_state gm))"
    by (simp add: recover_timeout_def Let_def split: if_splits)
  from assms t obtain m where m: "fallback_move cs (fallback_choice inp) (universe gm) (current_pos bt) = Inr m"
    by (cases "fallback_move cs (fallback_choice inp) (universe gm) (current_pos bt)")
       (simp_all add: recover_timeout_def Let_def)
  from assms t m obtain u' ms where mv: "move_bot cs (universe gm) (index bt) m = Inr (u', ms)"
    by (cases "move_bot cs (universe gm) (index bt) m")
       (auto simp add: recover_timeout_def Let_def)
  from assms t m mv have "gm' = gm\<lparr>universe := u', game_state := merge_move_state ms (count_timeout bt (game_state gm))\<rparr>"
    by (simp add: recover_timeout_def Let_def count_timeout_def)
  with t m mv show ?thesis by blast
qed


lemma begin_turn_simps:
  "universe (begin_turn bt gm) = universe gm"
  "player_teams (begin_turn bt gm) = player_teams gm"
  "viewers (begin_turn bt gm) = viewers gm"
  "step_iter (begin_turn bt gm) = step_iter gm"
  "game_time (begin_turn bt gm) = game_time gm"
  "noiser (begin_turn bt gm) = noiser gm"
  "timeout_teams (game_state (begin_turn bt gm)) = timeout_teams (game_state gm)"
  "team_wins (game_state (begin_turn bt gm)) = team_wins (game_state gm)"
  "game_draw (game_state (begin_turn bt gm)) = game_draw (game_state gm)"
  "finished (game_state (begin_turn bt gm)) = finished (game_state gm)"
  "round_index (game_state (begin_turn bt gm)) = round_index (game_state gm)"
  by (simp_all add: begin_turn_def)

lemma merge_move_state_simps:
  "timeout_teams (merge_move_state ms gs) = timeout_teams gs"
  "team_wins (merge_move_state ms gs) = team_wins gs"
  "game_draw (merge_move_state ms gs) = game_draw gs"
  "finished (merge_move_state ms gs) = finished gs"
  "round_index (merge_move_state ms gs) = round_index gs"
  by (simp_all add: merge_move_state_def)

lemma count_timeout_simps:
  "game_draw (count_timeout bt gs) = game_draw gs"
  "finished (count_timeout bt gs) = finished gs"
  "round_index (count_timeout bt gs) = round_index gs"
  by (simp_all add: count_timeout_def Let_def)

lemma play_bot_Inr_team:
  "play_bot cs inp bt gm = Inr gm' \<Longrightarrow> team_index bt < length (player_teams gm)"
  by (simp add: play_bot_def Let_def begin_turn_simps split: if_splits)

text \<open>The three ways out of the \<^verbatim>\<open>try\<close> of a turn.\<close>

lemma play_bot_moved:
  assumes "try_move cs inp bt (begin_turn bt gm) = Inr gm1"
    and "team_index bt < length (player_teams gm)"
  shows "play_bot cs inp bt gm = Inr gm1"
  using assms by (simp add: play_bot_def Let_def begin_turn_simps)

lemma play_bot_recovers:
  assumes "try_move cs inp bt (begin_turn bt gm) = Inl (e, gm1)"
    and "e = IllegalMoveException \<or> e = PlayerTimeout"
    and "team_index bt < length (player_teams gm)"
  shows "play_bot cs inp bt gm = recover_timeout cs inp bt gm1"
  using assms by (auto simp add: play_bot_def Let_def begin_turn_simps)

lemma play_bot_disconnected:
  assumes "try_move cs inp bt (begin_turn bt gm) = Inl (PlayerDisconnected, gm1)"
    and "team_index bt < length (player_teams gm)"
  shows "play_bot cs inp bt gm = Inr (disqualify_disconnected bt gm1)"
  using assms by (simp add: play_bot_def Let_def begin_turn_simps)

lemma play_bot_raises:
  assumes "try_move cs inp bt (begin_turn bt gm) = Inl (e, gm1)"
    and "e \<noteq> IllegalMoveException" and "e \<noteq> PlayerTimeout" and "e \<noteq> PlayerDisconnected"
  shows "play_bot cs inp bt gm = Inl e \<or> play_bot cs inp bt gm = Inl IndexError"
  using assms by (simp add: play_bot_def Let_def begin_turn_simps)

lemma finished_after_team_wins:
  "team_wins (game_state gm) \<noteq> None \<Longrightarrow> finished (game_state (check_finished cs gm))"
  by (simp add: finished_check_finished)

lemmas example_defs =
  example_master_def register_viewer_def register_team_def GameMaster_init_def
  initial_game_state_def two_bots_def corridor_def corridor_legal_def corridor_move_bot_def
  no_events_def

lemmas turn_defs =
  play_bot_def begin_turn_def try_move_def asked_def recover_timeout_def count_timeout_def
  disqualify_disconnected_def fallback_move_def fallback_moves_def list_remove_def keys_def
  random_choice_def merge_move_state_def MAX_TIMEOUTS_def



lemmas round_defs =
  iter_next_def begin_round_def iterate_bots_def finish_round_def check_finished_def check_winner_def
  print_possible_winner_def index_ok_def prepare_next_round_def update_viewers_def
  ensure_iter_def round_reached_def food_left_def py_all_def


section \<open>Facts about the noiser\<close>






section \<open>Facts about the round iterator\<close>

lemma noise_one_raises: "noise_one cs nz r me i u = Inl e \<Longrightarrow> e = IndexError"
  by (simp add: noise_one_def Let_def random_choice_def split: if_splits sum.splits)

lemma noise_loop_raises: "noise_loop cs nz rnd me places n u = Inl e \<Longrightarrow> e = IndexError"
proof (induction places arbitrary: n u)
  case Nil
  then show ?case by simp
next
  case (Cons i rest)
  then show ?case
    by (auto split: sum.splits dest: noise_one_raises)
qed

lemma uniform_noise_raises: "uniform_noise cs nz rnd u me = Inl e \<Longrightarrow> e = IndexError"
  by (auto simp: uniform_noise_def split: if_splits dest: noise_loop_raises)

text \<open>The state in which a turn is left, in terms of the state in which it was begun.\<close>

lemma try_move_Inl_cases:
  assumes "try_move cs inp bt gm = Inl (e, gm1)"
  shows "(e = IndexError \<and> gm1 = gm)
         \<or> (\<exists>tt. gm1 = (asked bt gm)\<lparr>game_state := (game_state gm)\<lparr>team_time := tt\<rparr>\<rparr>)"
proof (cases "case noiser gm of None \<Rightarrow> Inr (universe gm)
                | Some nz \<Rightarrow> uniform_noise cs nz (noise_choice inp) (universe gm) (index bt)")
  case (Inl e')
  then have "e' = IndexError"
    by (auto split: option.splits dest: uniform_noise_raises)
  with Inl assms show ?thesis
    by (simp add: try_move_def)
next
  case (Inr v)
  from Inr assms
  have "gm1 = asked bt gm
        \<or> gm1 = (asked bt gm)\<lparr>game_state := (game_state gm)\<lparr>team_time := (team_time (game_state gm))
              [team_index bt := team_time (game_state gm) ! team_index bt + team_time_needed inp]\<rparr>\<rparr>"
    unfolding try_move_def Let_def
    by (simp add: asked_def split: sum.splits if_splits prod.splits)
  then show ?thesis
  proof
    assume "gm1 = asked bt gm"
    then have "gm1 = (asked bt gm)\<lparr>game_state := (game_state gm)\<lparr>team_time := team_time (game_state gm)\<rparr>\<rparr>"
      by (simp add: asked_def)
    then show ?thesis by blast
  next
    assume "gm1 = (asked bt gm)\<lparr>game_state := (game_state gm)\<lparr>team_time := (team_time (game_state gm))
              [team_index bt := team_time (game_state gm) ! team_index bt + team_time_needed inp]\<rparr>\<rparr>"
    then show ?thesis by blast
  qed
qed

lemma try_move_Inr_cases:
  assumes "try_move cs inp bt gm = Inr gm1"
  shows "\<exists>tt u' ms. gm1 = (asked bt gm)\<lparr>universe := u',
           game_state := merge_move_state ms ((game_state gm)\<lparr>team_time := tt\<rparr>)\<rparr>"
  using assms
  unfolding try_move_def Let_def
  by (auto simp: asked_def split: sum.splits if_splits prod.splits option.splits)

text \<open>
  A turn that does not raise leaves everything but the universe, the requests and the game
  state as it was, and in the game state neither \<open>finished\<close> nor \<open>game_draw\<close> nor
  \<open>round_index\<close> is written.
\<close>

lemma play_bot_Inr_cases:
  assumes "play_bot cs inp bt gm = Inr gm'"
  shows "\<exists>u' gs'. gm' = (asked bt gm)\<lparr>universe := u', game_state := gs'\<rparr>
           \<and> finished gs' = finished (game_state gm)
           \<and> game_draw gs' = game_draw (game_state gm)
           \<and> round_index gs' = round_index (game_state gm)"
proof -
  let ?gm0 = "begin_turn bt gm"
  have t: "team_index bt < length (player_teams gm)"
    using assms by (rule play_bot_Inr_team)
  have a0: "asked bt ?gm0 = (asked bt gm)\<lparr>game_state := game_state ?gm0\<rparr>"
    by (simp add: asked_def begin_turn_def)
  show ?thesis
  proof (cases "try_move cs inp bt ?gm0")
    case (Inr gm1)
    with assms t have "gm' = gm1"
      by (simp add: play_bot_moved)
    with try_move_Inr_cases [OF Inr] obtain tt u' ms where
      g: "gm' = (asked bt gm)\<lparr>universe := u',
                  game_state := merge_move_state ms ((game_state ?gm0)\<lparr>team_time := tt\<rparr>)\<rparr>"
      by (auto simp: a0)
    show ?thesis
      by (rule exI [of _ u'], rule exI [of _ "merge_move_state ms ((game_state ?gm0)\<lparr>team_time := tt\<rparr>)"])
         (simp add: g merge_move_state_simps begin_turn_simps)
  next
    case (Inl p)
    obtain e gm1 where p: "p = (e, gm1)"
      by (cases p)
    note tm = Inl [unfolded p]
    from try_move_Inl_cases [OF tm]
    have gm1: "e = IndexError \<or> (\<exists>gs1. gm1 = (asked bt gm)\<lparr>game_state := gs1\<rparr>
                 \<and> finished gs1 = finished (game_state gm)
                 \<and> game_draw gs1 = game_draw (game_state gm)
                 \<and> round_index gs1 = round_index (game_state gm))"
      by (auto simp: a0 begin_turn_simps)
    consider (recover) "e = IllegalMoveException \<or> e = PlayerTimeout"
      | (gone) "e = PlayerDisconnected"
      | (other) "e \<noteq> IllegalMoveException" "e \<noteq> PlayerTimeout" "e \<noteq> PlayerDisconnected"
      by blast
    then show ?thesis
    proof cases
      case recover
      with gm1 obtain gs1 where g: "gm1 = (asked bt gm)\<lparr>game_state := gs1\<rparr>"
        and f: "finished gs1 = finished (game_state gm)"
               "game_draw gs1 = game_draw (game_state gm)"
               "round_index gs1 = round_index (game_state gm)"
        by auto
      from play_bot_recovers [OF tm recover t] assms
      have "recover_timeout cs inp bt gm1 = Inr gm'"
        by simp
      from recover_timeout_Inr [OF this] obtain u' ms where
        "gm' = gm1\<lparr>universe := u', game_state := merge_move_state ms (count_timeout bt (game_state gm1))\<rparr>"
        by blast
      then have g': "gm' = (asked bt gm)\<lparr>universe := u',
                   game_state := merge_move_state ms (count_timeout bt gs1)\<rparr>"
        by (simp add: g)
      show ?thesis
        by (rule exI [of _ u'], rule exI [of _ "merge_move_state ms (count_timeout bt gs1)"])
           (simp add: g' f merge_move_state_simps count_timeout_simps)
    next
      case gone
      with gm1 obtain gs1 where g: "gm1 = (asked bt gm)\<lparr>game_state := gs1\<rparr>"
        and f: "finished gs1 = finished (game_state gm)"
               "game_draw gs1 = game_draw (game_state gm)"
               "round_index gs1 = round_index (game_state gm)"
        by auto
      from play_bot_disconnected [OF tm [unfolded gone] t] assms
      have "gm' = disqualify_disconnected bt gm1"
        by simp
      then have g': "gm' = (asked bt gm)\<lparr>universe := universe gm,
                   game_state := gs1\<lparr>team_wins := Some (1 - int (team_index bt))\<rparr>\<rparr>"
        by (simp add: g disqualify_disconnected_def asked_def)
      show ?thesis
        by (rule exI [of _ "universe gm"],
            rule exI [of _ "gs1\<lparr>team_wins := Some (1 - int (team_index bt))\<rparr>"])
           (simp add: g' f)
    next
      case other
      from play_bot_raises [OF tm other] assms show ?thesis
        by auto
    qed
  qed
qed

lemma sum_lengths_update:
  "i < length xss \<Longrightarrow>
     sum_list (map length (xss[i := xss ! i @ [a]])) = Suc (sum_list (map length xss))"
proof (induction xss arbitrary: i)
  case Nil
  then show ?case by simp
next
  case (Cons xs xss)
  then show ?case by (cases i) simp_all
qed

lemma moves_requested_asked:
  "team_index bt < length (player_teams gm) \<Longrightarrow>
     moves_requested (asked bt gm) = Suc (moves_requested gm)"
  by (simp add: moves_requested_def asked_def sum_lengths_update)

text \<open>The same, with the fields spelled out.\<close>

lemma play_bot_Inr:
  assumes "play_bot cs inp bt gm = Inr gm'"
  shows "finished (game_state gm') = finished (game_state gm)"
    and "game_draw (game_state gm') = game_draw (game_state gm)"
    and "round_index (game_state gm') = round_index (game_state gm)"
    and "game_time gm' = game_time gm"
    and "viewers gm' = viewers gm"
    and "step_iter gm' = step_iter gm"
    and "moves_requested gm' = Suc (moves_requested gm)"
proof -
  from play_bot_Inr_cases [OF assms] obtain u' gs' where
    g: "gm' = (asked bt gm)\<lparr>universe := u', game_state := gs'\<rparr>"
    and f: "finished gs' = finished (game_state gm)" "game_draw gs' = game_draw (game_state gm)"
           "round_index gs' = round_index (game_state gm)"
    by blast
  have m: "moves_requested gm' = moves_requested (asked bt gm)"
    by (simp add: g moves_requested_def)
  show "finished (game_state gm') = finished (game_state gm)"
    and "game_draw (game_state gm') = game_draw (game_state gm)"
    and "round_index (game_state gm') = round_index (game_state gm)"
    and "game_time gm' = game_time gm"
    and "viewers gm' = viewers gm"
    and "step_iter gm' = step_iter gm"
    using f by (simp_all add: g asked_def)
  show "moves_requested gm' = Suc (moves_requested gm)"
    unfolding m by (rule moves_requested_asked) (rule play_bot_Inr_team [OF assms])
qed

lemma iterate_bots_cases:
  assumes "iterate_bots cs inps k gm = Inr (sig, gm')"
  shows "(k < length (bots (universe gm)) \<and> sig = Yield
          \<and> (\<exists>gm1. play_bot cs (inps k) (bots (universe gm) ! k) gm = Inr gm1
                \<and> gm' = (update_viewers (gm1\<lparr>game_state := (game_state gm1)
                            \<lparr>running_time := running_time (game_state gm1) + elapsed (inps k)\<rparr>\<rparr>))
                          \<lparr>step_iter := Some (Suspended (Suc k))\<rparr>))
         \<or> (\<not> k < length (bots (universe gm)) \<and> sig = StopIteration
             \<and> (\<exists>gm1. finish_round cs gm = Inr gm1
                   \<and> gm' = (if finished (game_state gm1) then update_viewers gm1 else gm1)
                             \<lparr>step_iter := Some Exhausted\<rparr>))"
  using assms
  unfolding iterate_bots_def Let_def
  by (auto split: if_splits sum.splits)

lemma iter_next_cases:
  assumes "iter_next cs inps gm = Inr (sig, gm')"
  shows "(step_iter gm = Some Exhausted \<and> sig = StopIteration \<and> gm' = gm)
         \<or> (\<exists>k. step_iter gm = Some (Suspended k) \<and> iterate_bots cs inps k gm = Inr (sig, gm'))
         \<or> (step_iter gm = Some Created
             \<and> (\<exists>gm0. begin_round cs gm = Inr gm0
                   \<and> (if finished (game_state gm0)
                       then sig = GameFinished
                            \<and> gm' = (update_viewers gm0)\<lparr>step_iter := Some Exhausted\<rparr>
                       else iterate_bots cs inps 0 gm0 = Inr (sig, gm'))))"
  using assms
  unfolding iter_next_def
  by (auto split: option.splits iterator.splits sum.splits if_splits)


lemma iter_next_Yield_unfinished:
  assumes "iter_next cs inps gm = Inr (Yield, gm')" and "\<not> finished (game_state gm)"
  shows "\<not> finished (game_state gm')"
proof -
  have y: "\<not> finished (game_state gm2)"
    if "iterate_bots cs inps k gm1 = Inr (Yield, gm2)" and "\<not> finished (game_state gm1)"
    for k gm1 gm2
  proof -
    from iterate_bots_cases [OF that(1)] obtain gm3 where
      p: "play_bot cs (inps k) (bots (universe gm1) ! k) gm1 = Inr gm3"
      and g: "gm2 = (update_viewers (gm3\<lparr>game_state := (game_state gm3)
                  \<lparr>running_time := running_time (game_state gm3) + elapsed (inps k)\<rparr>\<rparr>))
                \<lparr>step_iter := Some (Suspended (Suc k))\<rparr>"
      by auto
    from play_bot_Inr(1) [OF p] that(2) show ?thesis
      by (simp add: g update_viewers_def)
  qed
  from iter_next_cases [OF assms(1)] assms(2) y show ?thesis
    by (auto split: if_splits)
qed

text \<open>
  A relation between the state before and the state after that holds for every step of the
  iterator, taken from a state that is not finished, holds for the loops built on it.
\<close>

lemma round_loop_lift:
  assumes trans: "\<And>a b c. R a b \<Longrightarrow> \<not> finished (game_state b) \<Longrightarrow> R b c \<Longrightarrow> R a c"
    and step: "\<And>inps gm sig gm'. \<not> finished (game_state gm) \<Longrightarrow>
                 iter_next cs inps gm = Inr (sig, gm') \<Longrightarrow> sig \<noteq> StopIteration \<Longrightarrow> R gm gm'"
    and stop: "\<And>inps gm gm'. \<not> finished (game_state gm) \<Longrightarrow>
                 iter_next cs inps gm = Inr (StopIteration, gm') \<Longrightarrow> R gm (gm'\<lparr>step_iter := None\<rparr>)"
    and run: "round_loop cs inps gm = Some (Inr gm')"
    and unfinished: "\<not> finished (game_state gm)"
  shows "R gm gm'"
proof -
  have "R g g'"
    if "round_loop c i g = Some y" and "c = cs" and "y = Inr g'" and "\<not> finished (game_state g)"
    for c i g y g'
    using that(2-)
  proof (induction c i g y arbitrary: g' rule: round_loop.raw_induct)
    case (1 f c i g y)
    note eq = "1.hyps" and c = "1.prems"(1) and y = "1.prems"(2) and u = "1.prems"(3)
    from eq y obtain sig gm1 where n: "iter_next cs i g = Inr (sig, gm1)"
      unfolding c by (cases "iter_next cs i g") auto
    show ?case
    proof (cases sig)
      case Yield
      with eq n c have f: "f cs i gm1 = Some y"
        by simp
      have u1: "\<not> finished (game_state gm1)"
        by (rule iter_next_Yield_unfinished [OF n [unfolded Yield] u])
      have b: "R gm1 g'"
        by (rule "1.IH" [OF f refl y u1])
      have a: "R g gm1"
        using step [OF u n] Yield by simp
      show ?thesis
        by (rule trans [OF a u1 b])
    next
      case StopIteration
      with eq n c y have "g' = gm1\<lparr>step_iter := None\<rparr>"
        by simp
      with stop [OF u n [unfolded StopIteration]] show ?thesis
        by simp
    next
      case GameFinished
      with eq n c y have "g' = gm1"
        by simp
      with step [OF u n] GameFinished show ?thesis
        by simp
    qed
  qed (rule that(1))
  from this [OF run refl refl unfinished] show ?thesis .
qed

lemma finished_ensure_iter [simp]:
  "finished (game_state (ensure_iter gm)) = finished (game_state gm)"
  by (simp add: ensure_iter_def)

lemma play_round_lift:
  assumes same: "\<And>gm. R gm gm"
    and trans: "\<And>a b c. R a b \<Longrightarrow> \<not> finished (game_state b) \<Longrightarrow> R b c \<Longrightarrow> R a c"
    and step: "\<And>inps gm sig gm'. \<not> finished (game_state gm) \<Longrightarrow>
                 iter_next cs inps gm = Inr (sig, gm') \<Longrightarrow> sig \<noteq> StopIteration \<Longrightarrow> R gm gm'"
    and stop: "\<And>inps gm gm'. \<not> finished (game_state gm) \<Longrightarrow>
                 iter_next cs inps gm = Inr (StopIteration, gm') \<Longrightarrow> R gm (gm'\<lparr>step_iter := None\<rparr>)"
    and ens: "\<And>gm. \<not> finished (game_state gm) \<Longrightarrow> R gm (ensure_iter gm)"
    and run: "play_round cs inps gm = Some (Inr gm')"
  shows "R gm gm'"
proof (cases "finished (game_state gm)")
  case True
  with run have "gm' = gm"
    by (simp add: play_round_def)
  then show ?thesis
    by (simp add: same)
next
  case False
  with run have "round_loop cs inps (ensure_iter gm) = Some (Inr gm')"
    by (simp add: play_round_def)
  moreover from False have u: "\<not> finished (game_state (ensure_iter gm))"
    by simp
  ultimately have "R (ensure_iter gm) gm'"
    apply -
    apply (rule round_loop_lift [where R = R and cs = cs and inps = inps])
        apply (erule (2) trans)
       apply (erule (2) step)
      apply (erule (1) stop)
     apply assumption+
    done
  with ens [OF False] u show ?thesis
    by (rule trans)
qed

lemma play_step_lift:
  assumes same: "\<And>gm. R gm gm"
    and trans: "\<And>a b c. R a b \<Longrightarrow> \<not> finished (game_state b) \<Longrightarrow> R b c \<Longrightarrow> R a c"
    and step: "\<And>inps gm sig gm'. \<not> finished (game_state gm) \<Longrightarrow>
                 iter_next cs inps gm = Inr (sig, gm') \<Longrightarrow> sig \<noteq> StopIteration \<Longrightarrow> R gm gm'"
    and stop: "\<And>inps gm gm'. \<not> finished (game_state gm) \<Longrightarrow>
                 iter_next cs inps gm = Inr (StopIteration, gm') \<Longrightarrow> R gm (gm'\<lparr>step_iter := None\<rparr>)"
    and ens: "\<And>gm. \<not> finished (game_state gm) \<Longrightarrow> R gm (ensure_iter gm)"
    and run: "play_step cs inp gm = Some (Inr gm')"
  shows "R gm gm'"
proof -
  have "R g g' \<and> (finished (game_state g) \<longrightarrow> g' = g)"
    if "play_step c i g = Some y" and "c = cs" and "y = Inr g'"
    for c i g y g'
    using that(2-)
  proof (induction c i g y arbitrary: g' rule: play_step.raw_induct)
    case (1 f c i g y)
    note eq = "1.hyps" and c = "1.prems"(1) and y = "1.prems"(2)
    show ?case
    proof (cases "finished (game_state g)")
      case True
      with eq y show ?thesis
        by (simp add: same)
    next
      case False
      with eq y obtain sig gm1 where n: "iter_next cs (\<lambda>k. i) (ensure_iter g) = Inr (sig, gm1)"
        unfolding c by (cases "iter_next cs (\<lambda>k. i) (ensure_iter g)") auto
      have e: "R g (ensure_iter g)" and ue: "\<not> finished (game_state (ensure_iter g))"
        using ens [OF False] False by simp_all
      show ?thesis
      proof (cases "sig = StopIteration")
        case True
        let ?g2 = "gm1\<lparr>step_iter := None\<rparr>"
        from eq n c False True have f: "f cs i ?g2 = Some y"
          by simp
        from "1.IH" [OF f refl y]
        have ih: "R ?g2 g'" "finished (game_state ?g2) \<longrightarrow> g' = ?g2"
          by simp_all
        have "R (ensure_iter g) ?g2"
          using stop [OF ue n [unfolded True]] .
        with e ue have a: "R g ?g2"
          by (rule trans)
        have "R g g'"
        proof (cases "finished (game_state ?g2)")
          case True
          with ih(2) a show ?thesis by simp
        next
          case False
          from a False ih(1) show ?thesis by (rule trans)
        qed
        with False show ?thesis by simp
      next
        case False
        with eq n c y \<open>\<not> finished (game_state g)\<close> have "g' = gm1"
          by (cases sig) simp_all
        moreover have "R (ensure_iter g) gm1"
          using step [OF ue n False] .
        with e ue have "R g gm1"
          by (rule trans)
        ultimately show ?thesis
          using \<open>\<not> finished (game_state g)\<close> by simp
      qed
    qed
  qed (rule that(1))
  from this [OF run refl refl] show ?thesis
    by simp
qed

lemma play_loop_lift:
  assumes same: "\<And>gm. R gm gm"
    and trans: "\<And>a b c. R a b \<Longrightarrow> \<not> finished (game_state b) \<Longrightarrow> R b c \<Longrightarrow> R a c"
    and step: "\<And>inps gm sig gm'. \<not> finished (game_state gm) \<Longrightarrow>
                 iter_next cs inps gm = Inr (sig, gm') \<Longrightarrow> sig \<noteq> StopIteration \<Longrightarrow> R gm gm'"
    and stop: "\<And>inps gm gm'. \<not> finished (game_state gm) \<Longrightarrow>
                 iter_next cs inps gm = Inr (StopIteration, gm') \<Longrightarrow> R gm (gm'\<lparr>step_iter := None\<rparr>)"
    and ens: "\<And>gm. \<not> finished (game_state gm) \<Longrightarrow> R gm (ensure_iter gm)"
    and run: "play_loop cs rounds n gm = Some (Inr gm')"
  shows "R gm gm' \<and> finished (game_state gm')"
proof -
  have "R g g' \<and> finished (game_state g') \<and> (finished (game_state g) \<longrightarrow> g' = g)"
    if "play_loop c r n g = Some y" and "c = cs" and "y = Inr g'"
    for c r n g y g'
    using that(2-)
  proof (induction c r n g y arbitrary: g' rule: play_loop.raw_induct)
    case (1 f c r n g y)
    note eq = "1.hyps" and c = "1.prems"(1) and y = "1.prems"(2)
    show ?case
    proof (cases "finished (game_state g)")
      case True
      with eq y show ?thesis
        by (auto simp: same)
    next
      case False
      with eq y obtain gm1 where p: "play_round cs (r n) g = Some (Inr gm1)"
        and f: "f cs r (Suc n) gm1 = Some y"
        unfolding c by (auto split: option.splits sum.splits)
      have a: "R g gm1"
        apply (rule play_round_lift [where R = R and cs = cs, OF _ _ _ _ _ p])
            apply (rule same)
           apply (erule (2) trans)
          apply (erule (2) step)
         apply (erule (1) stop)
        apply (erule ens)
        done
      from "1.IH" [OF f refl y]
      have ih: "R gm1 g'" "finished (game_state g')" "finished (game_state gm1) \<longrightarrow> g' = gm1"
        by simp_all
      have "R g g'"
      proof (cases "finished (game_state gm1)")
        case True
        with ih(3) a show ?thesis by simp
      next
        case False
        from a False ih(1) show ?thesis by (rule trans)
      qed
      with ih(2) False show ?thesis by simp
    qed
  qed (rule that(1))
  from this [OF run refl refl] show ?thesis
    by simp
qed

text \<open>What the steps of a round write.\<close>

lemma prepare_next_round_simps:
  "universe (prepare_next_round gm) = universe gm"
  "game_time (prepare_next_round gm) = game_time gm"
  "viewers (prepare_next_round gm) = viewers gm"
  "player_teams (prepare_next_round gm) = player_teams gm"
  "step_iter (prepare_next_round gm) = step_iter gm"
  "team_wins (game_state (prepare_next_round gm)) = team_wins (game_state gm)"
  "game_draw (game_state (prepare_next_round gm)) = game_draw (game_state gm)"
  by (simp_all add: prepare_next_round_def Let_def split: option.splits)

lemma prepare_next_round_finished:
  "finished (game_state gm) \<Longrightarrow> prepare_next_round gm = gm"
  by (simp add: prepare_next_round_def)

lemma prepare_next_round_round:
  assumes "\<not> finished (game_state gm)"
  shows "round_index (game_state (prepare_next_round gm))
           = (case round_index (game_state gm) of
                None \<Rightarrow> Some 0
              | Some r \<Rightarrow> if r < game_time gm then Some (r + 1) else Some r)"
    and "finished (game_state (prepare_next_round gm))
           = (case round_index (game_state gm) of
                None \<Rightarrow> False
              | Some r \<Rightarrow> \<not> r < game_time gm)"
  using assms by (simp_all add: prepare_next_round_def Let_def split: option.splits)

lemma check_finished_simps:
  "universe (check_finished cs gm) = universe gm"
  "game_time (check_finished cs gm) = game_time gm"
  "viewers (check_finished cs gm) = viewers gm"
  "player_teams (check_finished cs gm) = player_teams gm"
  "step_iter (check_finished cs gm) = step_iter gm"
  "team_wins (game_state (check_finished cs gm)) = team_wins (game_state gm)"
  "game_draw (game_state (check_finished cs gm)) = game_draw (game_state gm)"
  "round_index (game_state (check_finished cs gm)) = round_index (game_state gm)"
  by (simp_all add: check_finished_def Let_def)

lemma check_winner_Inr:
  assumes "check_winner gm = Inr gm'"
  shows "universe gm' = universe gm" and "game_time gm' = game_time gm"
    and "viewers gm' = viewers gm" and "player_teams gm' = player_teams gm"
    and "step_iter gm' = step_iter gm"
    and "round_index (game_state gm') = round_index (game_state gm)"
    and "finished (game_state gm') = finished (game_state gm)"
    and "finished (game_state gm) \<longrightarrow>
           team_wins (game_state gm') \<noteq> None \<or> game_draw (game_state gm') \<noteq> None"
    and "\<not> finished (game_state gm) \<longrightarrow> gm' = gm"
    and "team_wins (game_state gm) = None \<or> game_draw (game_state gm) = None \<longrightarrow>
           team_wins (game_state gm') = None \<or> game_draw (game_state gm') = None"
  using assms
  by (auto simp: check_winner_def Let_def split: if_splits)

lemma print_possible_winner_Inr: "print_possible_winner gm = Inr gm' \<Longrightarrow> gm' = gm"
  by (auto simp: print_possible_winner_def split: option.splits if_splits)

lemma finish_round_Inr:
  assumes "finish_round cs gm = Inr gm'"
  shows "universe gm' = universe gm" and "game_time gm' = game_time gm"
    and "viewers gm' = viewers gm" and "player_teams gm' = player_teams gm"
    and "step_iter gm' = step_iter gm"
    and "round_index (game_state gm') = round_index (game_state gm)"
    and "finished (game_state gm') \<longleftrightarrow>
           team_wins (game_state gm') \<noteq> None \<or> game_draw (game_state gm') \<noteq> None"
    and "team_wins (game_state gm) = None \<or> game_draw (game_state gm) = None \<longrightarrow>
           team_wins (game_state gm') = None \<or> game_draw (game_state gm') = None"
proof -
  from assms obtain gm1 where w: "check_winner (check_finished cs gm) = Inr gm1"
    and p: "print_possible_winner gm1 = Inr gm'"
    by (auto simp: finish_round_def split: sum.splits)
  from p have e: "gm' = gm1"
    by (rule print_possible_winner_Inr)
  note cw = check_winner_Inr [OF w]
  show "universe gm' = universe gm" and "game_time gm' = game_time gm"
    and "viewers gm' = viewers gm" and "player_teams gm' = player_teams gm"
    and "step_iter gm' = step_iter gm"
    and "round_index (game_state gm') = round_index (game_state gm)"
    unfolding e using cw(1-6) by (simp_all add: check_finished_simps)
  show "team_wins (game_state gm) = None \<or> game_draw (game_state gm) = None \<longrightarrow>
          team_wins (game_state gm') = None \<or> game_draw (game_state gm') = None"
    unfolding e using cw(10) by (simp add: check_finished_simps)
  show "finished (game_state gm') \<longleftrightarrow>
          team_wins (game_state gm') \<noteq> None \<or> game_draw (game_state gm') \<noteq> None"
  proof (cases "finished (game_state (check_finished cs gm))")
    case True
    with cw(7,8) show ?thesis
      unfolding e by simp
  next
    case False
    with cw(9) have "gm1 = check_finished cs gm"
      by simp
    with False show ?thesis
      unfolding e by (simp add: finished_check_finished check_finished_simps)
  qed
qed

lemma update_viewers_simps:
  "universe (update_viewers gm) = universe gm"
  "game_time (update_viewers gm) = game_time gm"
  "player_teams (update_viewers gm) = player_teams gm"
  "step_iter (update_viewers gm) = step_iter gm"
  "game_state (update_viewers gm) = game_state gm"
  "length (viewers (update_viewers gm)) = length (viewers gm)"
  "moves_requested (update_viewers gm) = moves_requested gm"
  by (simp_all add: update_viewers_def moves_requested_def)

lemma update_viewers_nth:
  "i < length (viewers gm) \<Longrightarrow>
     length (viewers (update_viewers gm) ! i) = Suc (length (viewers gm ! i))"
  by (simp add: update_viewers_def)

lemma begin_round_cases:
  assumes "begin_round cs gm = Inr gm0" and "\<not> finished (game_state gm)"
  shows "(gm0 = prepare_next_round gm \<and> finished (game_state gm0))
         \<or> (\<not> finished (game_state (prepare_next_round gm))
             \<and> finish_round cs (prepare_next_round gm) = Inr gm0)"
  using assms by (auto simp: begin_round_def Let_def split: if_splits)

section \<open>The round counter\<close>




lemma rounds_advance_iterate_bots:
  assumes "iterate_bots cs inps k gm = Inr (sig, gm')"
  shows "game_time gm' = game_time gm"
    and "round_index (game_state gm') = round_index (game_state gm)"
proof -
  from iterate_bots_cases [OF assms]
  have "game_time gm' = game_time gm \<and> round_index (game_state gm') = round_index (game_state gm)"
  proof (elim disjE conjE exE)
    fix gm1
    assume "play_bot cs (inps k) (bots (universe gm) ! k) gm = Inr gm1"
      and "gm' = (update_viewers (gm1\<lparr>game_state := (game_state gm1)
                    \<lparr>running_time := running_time (game_state gm1) + elapsed (inps k)\<rparr>\<rparr>))
                  \<lparr>step_iter := Some (Suspended (Suc k))\<rparr>"
    with play_bot_Inr(3,4) [of cs "inps k" "bots (universe gm) ! k" gm gm1] show ?thesis
      by (simp add: update_viewers_simps)
  next
    fix gm1
    assume "finish_round cs gm = Inr gm1"
      and "gm' = (if finished (game_state gm1) then update_viewers gm1 else gm1)
                  \<lparr>step_iter := Some Exhausted\<rparr>"
    with finish_round_Inr(2,6) [of cs gm gm1] show ?thesis
      by (simp add: update_viewers_simps)
  qed
  then show "game_time gm' = game_time gm"
    and "round_index (game_state gm') = round_index (game_state gm)"
    by simp_all
qed






section \<open>The outcome\<close>













section \<open>The notifications\<close>

lemmas match_defs =
  play_round_def set_initial_def answering_def example_defs turn_defs round_defs Let_def

lemma short_match_eq:
  "\<exists>gm'. short_match = Some (Inr gm') \<and> moves_requested gm' = 2
         \<and> map length (viewers gm') = [4]
         \<and> moves_requested (example_master 1) = 0
         \<and> map length (viewers (example_master 1)) = [0]"
  unfolding short_match_def play_def
  apply (subst play_loop.simps)
  apply (simp add: match_defs)
  apply (subst round_loop.simps)
  apply (simp add: match_defs)
  apply (subst round_loop.simps)
  apply (simp add: match_defs)
  apply (subst round_loop.simps)
  apply (simp add: match_defs)
  apply (subst play_loop.simps)
  apply (simp add: match_defs)
  apply (subst round_loop.simps)
  apply (simp add: match_defs)
  apply (subst play_loop.simps)
  apply (simp add: match_defs moves_requested_def)
  done

lemma notified_same: "notified gm gm"
  by (simp add: notified_def)

lemma notifiedI:
  assumes "moves_requested gm' = moves_requested gm + n"
    and "length (viewers gm') = length (viewers gm)"
    and "\<And>i. i < length (viewers gm) \<Longrightarrow>
           length (viewers gm' ! i)
             = length (viewers gm ! i) + n + (if finished (game_state gm') then 1 else 0)"
    and "\<And>i. i < length (viewers gm) \<Longrightarrow> finished (game_state gm') \<Longrightarrow>
           \<exists>v. viewers gm' ! i = v @ [(universe gm', game_state gm')]"
  shows "notified gm gm'"
  unfolding notified_def using assms by blast

lemma notified_trans:
  assumes ab: "notified a b" and b: "\<not> finished (game_state b)" and bc: "notified b c"
  shows "notified a c"
proof (cases "finished (game_state a)")
  case True
  then show ?thesis
    by (simp add: notified_def)
next
  case False
  with ab b obtain n where n: "moves_requested b = moves_requested a + n"
    and l: "length (viewers b) = length (viewers a)"
    and v: "\<And>i. i < length (viewers a) \<Longrightarrow> length (viewers b ! i) = length (viewers a ! i) + n"
    unfolding notified_def by auto
  from bc b obtain m where m: "moves_requested c = moves_requested b + m"
    and l': "length (viewers c) = length (viewers b)"
    and v': "\<And>i. i < length (viewers b) \<Longrightarrow>
               length (viewers c ! i)
                 = length (viewers b ! i) + m + (if finished (game_state c) then 1 else 0)"
    and w': "\<And>i. i < length (viewers b) \<Longrightarrow> finished (game_state c) \<Longrightarrow>
               \<exists>v. viewers c ! i = v @ [(universe c, game_state c)]"
    unfolding notified_def by auto
  show ?thesis
  proof (rule notifiedI [where n = "n + m"])
    show "moves_requested c = moves_requested a + (n + m)"
      by (simp add: n m)
    show "length (viewers c) = length (viewers a)"
      by (simp add: l l')
    show "length (viewers c ! i)
            = length (viewers a ! i) + (n + m) + (if finished (game_state c) then 1 else 0)"
      if "i < length (viewers a)" for i
      using v [OF that] v' [of i] that l by simp
    show "\<exists>v. viewers c ! i = v @ [(universe c, game_state c)]"
      if "i < length (viewers a)" and "finished (game_state c)" for i
      using w' [of i] that l by simp
  qed
qed

lemma notified_left:
  assumes "notified a' b" and "viewers a' = viewers a" and "moves_requested a' = moves_requested a"
    and "\<not> finished (game_state a')"
  shows "notified a b"
  using assms unfolding notified_def by simp

lemma update_viewers_last:
  "i < length (viewers gm) \<Longrightarrow>
     viewers (update_viewers gm) ! i = viewers gm ! i @ [(universe gm, game_state gm)]"
  by (simp add: update_viewers_def)

text \<open>A turn: one request, one notification of every viewer.\<close>

lemma iterate_bots_Yield:
  assumes "iterate_bots cs inps k gm = Inr (Yield, gm')"
  shows "moves_requested gm' = Suc (moves_requested gm)"
    and "viewers gm' = map (\<lambda>v. v @ [(universe gm', game_state gm')]) (viewers gm)"
    and "finished (game_state gm') = finished (game_state gm)"
proof -
  from iterate_bots_cases [OF assms] obtain gm1 where
    p: "play_bot cs (inps k) (bots (universe gm) ! k) gm = Inr gm1"
    and g: "gm' = (update_viewers (gm1\<lparr>game_state := (game_state gm1)
                \<lparr>running_time := running_time (game_state gm1) + elapsed (inps k)\<rparr>\<rparr>))
              \<lparr>step_iter := Some (Suspended (Suc k))\<rparr>"
    by auto
  note pb = play_bot_Inr [OF p]
  show "moves_requested gm' = Suc (moves_requested gm)"
    using pb(7) by (simp add: g update_viewers_def moves_requested_def)
  show "viewers gm' = map (\<lambda>v. v @ [(universe gm', game_state gm')]) (viewers gm)"
    using pb(5) by (simp add: g update_viewers_def)
  show "finished (game_state gm') = finished (game_state gm)"
    using pb(1) by (simp add: g update_viewers_def)
qed

lemma notified_update_viewers:
  assumes "finished (game_state gm)" and "viewers gm = viewers g" 
    and "moves_requested gm = moves_requested g"
  shows "notified g ((update_viewers gm)\<lparr>step_iter := x\<rparr>)"
proof (rule notifiedI [where n = 0])
  show "moves_requested ((update_viewers gm)\<lparr>step_iter := x\<rparr>) = moves_requested g + 0"
    using assms(3) by (simp add: update_viewers_def moves_requested_def)
  show "length (viewers ((update_viewers gm)\<lparr>step_iter := x\<rparr>)) = length (viewers g)"
    using assms(2) by (simp add: update_viewers_def)
  show "length (viewers ((update_viewers gm)\<lparr>step_iter := x\<rparr>) ! i)
          = length (viewers g ! i) + 0
            + (if finished (game_state ((update_viewers gm)\<lparr>step_iter := x\<rparr>)) then 1 else 0)"
    if "i < length (viewers g)" for i
    using that assms(1,2) by (simp add: update_viewers_def)
  show "\<exists>v. viewers ((update_viewers gm)\<lparr>step_iter := x\<rparr>) ! i
              = v @ [(universe ((update_viewers gm)\<lparr>step_iter := x\<rparr>),
                      game_state ((update_viewers gm)\<lparr>step_iter := x\<rparr>))]"
    if "i < length (viewers g)" for i
    using that assms(2) by (simp add: update_viewers_def)
qed

lemma notified_unchanged:
  assumes "\<not> finished (game_state gm)" and "viewers gm = viewers g"
    and "moves_requested gm = moves_requested g"
  shows "notified g (gm\<lparr>step_iter := x\<rparr>)"
  using assms by (intro notifiedI [where n = 0]) (simp_all add: moves_requested_def)

lemma notified_iterate_bots:
  assumes "iterate_bots cs inps k gm = Inr (sig, gm')" and "\<not> finished (game_state gm)"
  shows "notified gm (gm'\<lparr>step_iter := x\<rparr>)"
proof (cases sig)
  case Yield
  note y = iterate_bots_Yield [OF assms(1) [unfolded Yield]]
  show ?thesis
  proof (rule notifiedI [where n = 1])
    show "moves_requested (gm'\<lparr>step_iter := x\<rparr>) = moves_requested gm + 1"
      using y(1) by (simp add: moves_requested_def)
    show "length (viewers (gm'\<lparr>step_iter := x\<rparr>)) = length (viewers gm)"
      by (simp add: y(2))
    show "length (viewers (gm'\<lparr>step_iter := x\<rparr>) ! i)
            = length (viewers gm ! i) + 1
              + (if finished (game_state (gm'\<lparr>step_iter := x\<rparr>)) then 1 else 0)"
      if "i < length (viewers gm)" for i
      using that assms(2) y(3) by (simp add: y(2))
    show "\<exists>v. viewers (gm'\<lparr>step_iter := x\<rparr>) ! i
                = v @ [(universe (gm'\<lparr>step_iter := x\<rparr>), game_state (gm'\<lparr>step_iter := x\<rparr>))]"
      if "i < length (viewers gm)" for i
      using that by (simp add: y(2))
  qed
next
  case StopIteration
  with iterate_bots_cases [OF assms(1)] obtain gm1 where
    f: "finish_round cs gm = Inr gm1"
    and g: "gm' = (if finished (game_state gm1) then update_viewers gm1 else gm1)
                  \<lparr>step_iter := Some Exhausted\<rparr>"
    by auto
  note fr = finish_round_Inr [OF f]
  have m: "moves_requested gm1 = moves_requested gm"
    by (simp add: moves_requested_def fr(4))
  show ?thesis
  proof (cases "finished (game_state gm1)")
    case True
    from notified_update_viewers [OF True fr(3) m, of x] True show ?thesis
      by (simp add: g)
  next
    case False
    from notified_unchanged [OF False fr(3) m, of x] False show ?thesis
      by (simp add: g)
  qed
next
  case GameFinished
  with iterate_bots_cases [OF assms(1)] show ?thesis
    by simp
qed

lemma notified_iter_next:
  assumes "iter_next cs inps gm = Inr (sig, gm')" and "\<not> finished (game_state gm)"
  shows "notified gm (gm'\<lparr>step_iter := x\<rparr>)"
  using iter_next_cases [OF assms(1)]
proof (elim disjE conjE exE)
  assume "gm' = gm"
  with notified_unchanged [OF assms(2) refl refl, of x] show ?thesis
    by simp
next
  fix k
  assume "iterate_bots cs inps k gm = Inr (sig, gm')"
  then show ?thesis
    using assms(2) by (rule notified_iterate_bots)
next
  fix gm0
  assume b: "begin_round cs gm = Inr gm0"
    and r: "if finished (game_state gm0)
            then sig = GameFinished \<and> gm' = (update_viewers gm0)\<lparr>step_iter := Some Exhausted\<rparr>
            else iterate_bots cs inps 0 gm0 = Inr (sig, gm')"
  have v: "viewers gm0 = viewers gm" and p: "player_teams gm0 = player_teams gm"
    using begin_round_cases [OF b assms(2)]
          finish_round_Inr(3,4) [of cs "prepare_next_round gm" gm0]
    by (auto simp: prepare_next_round_simps)
  from p have m: "moves_requested gm0 = moves_requested gm"
    by (simp add: moves_requested_def)
  show ?thesis
  proof (cases "finished (game_state gm0)")
    case True
    with r have g: "gm' = (update_viewers gm0)\<lparr>step_iter := Some Exhausted\<rparr>"
      by simp
    from notified_update_viewers [OF True v m, of x] show ?thesis
      by (simp add: g)
  next
    case False
    with r have "iterate_bots cs inps 0 gm0 = Inr (sig, gm')"
      by simp
    from notified_iterate_bots [OF this False, of x] show ?thesis
      using v m False by (rule notified_left)
  qed
qed

lemma notified_play_loop:
  assumes "play_loop cs rounds n gm = Some (Inr gm')"
  shows "notified gm gm' \<and> finished (game_state gm')"
proof -
  have step: "notified g g'"
    if "\<not> finished (game_state g)" and "iter_next cs i g = Inr (sig, g')" for i g sig g'
    using notified_iter_next [OF that(2,1), of "step_iter g'"] by simp
  have stop: "notified g (g'\<lparr>step_iter := None\<rparr>)"
    if "\<not> finished (game_state g)" and "iter_next cs i g = Inr (StopIteration, g')" for i g g'
    using that by (intro notified_iter_next)
  have ens: "notified g (ensure_iter g)" if "\<not> finished (game_state g)" for g :: "'a GameMaster"
    using notified_unchanged [OF that refl refl, of "Some Created"] notified_same [of g]
    by (simp add: ensure_iter_def)
  from assms show ?thesis
    apply (rule play_loop_lift [where R = notified and cs = cs, rotated 5])
        apply (rule notified_same)
       apply (erule (2) notified_trans)
      apply (erule (1) step)
     apply (erule (1) stop)
    apply (erule ens)
    done
qed

section \<open>The loops end\<close>

lemma try_move_Inr_universe:
  assumes "try_move cs inp bt gm = Inr gm1"
  shows "\<exists>i m ms. move_bot cs (universe gm) i m = Inr (universe gm1, ms)"
  using assms
  unfolding try_move_def Let_def
  by (fastforce simp: asked_def split: sum.splits if_splits prod.splits option.splits)

lemma play_bot_length:
  assumes "bots_kept cs" and "play_bot cs inp bt gm = Inr gm'"
  shows "length (bots (universe gm')) = length (bots (universe gm))"
proof -
  let ?gm0 = "begin_turn bt gm"
  have t: "team_index bt < length (player_teams gm)"
    using assms(2) by (rule play_bot_Inr_team)
  have kept: "length (bots u') = length (bots u)" if "move_bot cs u i m = Inr (u', ms)" for u i m u' ms
    using assms(1) that unfolding bots_kept_def by blast
  show ?thesis
  proof (cases "try_move cs inp bt ?gm0")
    case (Inr gm1)
    with assms(2) t have "gm' = gm1"
      by (simp add: play_bot_moved)
    with try_move_Inr_universe [OF Inr] kept show ?thesis
      by (auto simp: begin_turn_simps)
  next
    case (Inl p)
    obtain e gm1 where p: "p = (e, gm1)"
      by (cases p)
    note tm = Inl [unfolded p]
    have u: "universe gm1 = universe gm"
      using try_move_Inl(1) [OF tm] by (simp add: begin_turn_simps)
    consider (recover) "e = IllegalMoveException \<or> e = PlayerTimeout"
      | (gone) "e = PlayerDisconnected"
      | (other) "e \<noteq> IllegalMoveException" "e \<noteq> PlayerTimeout" "e \<noteq> PlayerDisconnected"
      by blast
    then show ?thesis
    proof cases
      case recover
      from play_bot_recovers [OF tm recover t] assms(2)
      have "recover_timeout cs inp bt gm1 = Inr gm'"
        by simp
      from recover_timeout_Inr [OF this] obtain m u' ms where
        "move_bot cs (universe gm1) (index bt) m = Inr (u', ms)"
        and "gm' = gm1\<lparr>universe := u', game_state := merge_move_state ms (count_timeout bt (game_state gm1))\<rparr>"
        by blast
      with kept [of "universe gm1" "index bt" m u' ms] show ?thesis
        by (simp add: u)
    next
      case gone
      from play_bot_disconnected [OF tm [unfolded gone] t] assms(2)
      have "gm' = disqualify_disconnected bt gm1"
        by simp
      then show ?thesis
        by (simp add: disqualify_disconnected_def u)
    next
      case other
      from play_bot_raises [OF tm other] assms(2) show ?thesis
        by auto
    qed
  qed
qed

lemma begin_round_universe:
  assumes "begin_round cs gm = Inr gm0"
  shows "universe gm0 = universe gm"
proof (cases "finished (game_state gm)")
  case True
  with assms show ?thesis
    by (simp add: begin_round_def prepare_next_round_finished)
next
  case False
  from begin_round_cases [OF assms False] finish_round_Inr(1) [of cs "prepare_next_round gm" gm0]
  show ?thesis
    by (auto simp: prepare_next_round_simps)
qed

lemma turns_left_Yield:
  assumes "bots_kept cs" and "iter_next cs inps gm = Inr (Yield, gm')"
  shows "turns_left gm' < turns_left gm" and "step_iter gm' \<noteq> None"
proof -
  have y: "k < length (bots (universe g)) \<and> step_iter g' = Some (Suspended (Suc k))
           \<and> length (bots (universe g')) = length (bots (universe g))"
    if "iterate_bots cs inps k g = Inr (Yield, g')" for k g g'
  proof -
    from iterate_bots_cases [OF that] obtain g1 where k: "k < length (bots (universe g))"
      and p: "play_bot cs (inps k) (bots (universe g) ! k) g = Inr g1"
      and g: "g' = (update_viewers (g1\<lparr>game_state := (game_state g1)
                  \<lparr>running_time := running_time (game_state g1) + elapsed (inps k)\<rparr>\<rparr>))
                \<lparr>step_iter := Some (Suspended (Suc k))\<rparr>"
      by auto
    from play_bot_length [OF assms(1) p] k show ?thesis
      by (simp add: g update_viewers_def)
  qed
  from iter_next_cases [OF assms(2)]
  have "turns_left gm' < turns_left gm \<and> step_iter gm' \<noteq> None"
  proof (elim disjE conjE exE)
    assume "Yield = StopIteration"
    then show ?thesis by simp
  next
    fix k
    assume s: "step_iter gm = Some (Suspended k)" and i: "iterate_bots cs inps k gm = Inr (Yield, gm')"
    from y [OF i] s show ?thesis
      by (auto simp: turns_left_def)
  next
    fix gm0
    assume s: "step_iter gm = Some Created" and b: "begin_round cs gm = Inr gm0"
      and r: "if finished (game_state gm0)
              then Yield = GameFinished \<and> gm' = (update_viewers gm0)\<lparr>step_iter := Some Exhausted\<rparr>
              else iterate_bots cs inps 0 gm0 = Inr (Yield, gm')"
    from r have i: "iterate_bots cs inps 0 gm0 = Inr (Yield, gm')"
      by (simp split: if_splits)
    from y [OF i] s begin_round_universe [OF b] show ?thesis
      by (auto simp: turns_left_def)
  qed
  then show "turns_left gm' < turns_left gm" and "step_iter gm' \<noteq> None"
    by simp_all
qed

text \<open>The loop of \<^verbatim>\<open>play_round\<close> ends: it returns or raises.\<close>

lemma round_loop_returns:
  assumes "bots_kept cs"
  shows "\<exists>r. round_loop cs inps gm = Some r"
proof (induction "turns_left gm" arbitrary: gm rule: less_induct)
  case less
  show ?case
  proof (cases "iter_next cs inps gm")
    case (Inl e)
    then show ?thesis
      by (subst round_loop.simps) simp
  next
    case (Inr p)
    obtain sig gm1 where p: "p = (sig, gm1)"
      by (cases p)
    show ?thesis
    proof (cases sig)
      case Yield
      from turns_left_Yield(1) [OF assms Inr [unfolded p Yield]]
      have "\<exists>r. round_loop cs inps gm1 = Some r"
        by (rule less)
      then show ?thesis
        by (subst round_loop.simps) (simp add: Inr p Yield)
    next
      case StopIteration
      then show ?thesis
        by (subst round_loop.simps) (simp add: Inr p)
    next
      case GameFinished
      then show ?thesis
        by (subst round_loop.simps) (simp add: Inr p)
    qed
  qed
qed

lemma play_round_returns:
  "bots_kept cs \<Longrightarrow> \<exists>r. play_round cs inps gm = Some r"
  by (simp add: play_round_def round_loop_returns)


text \<open>Every step of the iterator brings the match nearer to its end.\<close>

lemma nearer_trans:
  assumes "nearer a b" and "\<not> finished (game_state b)" and "nearer b c"
  shows "nearer a c"
  using assms unfolding nearer_def by (auto split: if_splits)

lemma rounds_left_begin_round:
  assumes "begin_round cs gm = Inr gm0" and "\<not> finished (game_state gm)"
    and "\<not> finished (game_state gm0)"
  shows "rounds_left gm0 < rounds_left gm"
proof -
  from begin_round_cases [OF assms(1,2)] assms(3)
  have u: "\<not> finished (game_state (prepare_next_round gm))"
    and f: "finish_round cs (prepare_next_round gm) = Inr gm0"
    by auto
  from finish_round_Inr(2,6) [OF f]
  have e: "rounds_left gm0 = rounds_left (prepare_next_round gm)"
    by (simp add: rounds_left_def split: option.splits)
  from prepare_next_round_round [OF assms(2)] u
  have "rounds_left (prepare_next_round gm) < rounds_left gm"
    by (cases "round_index (game_state gm)")
       (auto simp: rounds_left_def prepare_next_round_simps split: if_splits)
  with e show ?thesis
    by simp
qed

lemma steps_left_iterate_bots:
  assumes "iterate_bots cs inps k gm = Inr (sig, gm')"
  shows "rounds_left gm' = rounds_left gm"
    and "sig = Yield \<Longrightarrow> \<exists>j. step_iter gm' = Some (Suspended j)"
    and "sig \<noteq> GameFinished"
proof -
  from rounds_advance_iterate_bots [OF assms] show "rounds_left gm' = rounds_left gm"
    by (simp add: rounds_left_def split: option.splits)
  from iterate_bots_cases [OF assms] show "sig = Yield \<Longrightarrow> \<exists>j. step_iter gm' = Some (Suspended j)"
    by auto
  from iterate_bots_cases [OF assms] show "sig \<noteq> GameFinished"
    by auto
qed

lemma nearer_iter_next:
  assumes "iter_next cs inps gm = Inr (sig, gm')" and "\<not> finished (game_state gm)"
  shows "sig \<noteq> StopIteration \<Longrightarrow> nearer gm gm'"
    and "sig = StopIteration \<Longrightarrow> nearer gm (gm'\<lparr>step_iter := None\<rparr>)"
proof -
  have "(sig \<noteq> StopIteration \<longrightarrow> nearer gm gm')
        \<and> (sig = StopIteration \<longrightarrow> nearer gm (gm'\<lparr>step_iter := None\<rparr>))"
    using iter_next_cases [OF assms(1)]
  proof (elim disjE conjE exE)
    assume "step_iter gm = Some Exhausted" and "sig = StopIteration" and "gm' = gm"
    then show ?thesis
      by (simp add: nearer_def steps_left_def rounds_left_def split: option.splits)
  next
    fix k
    assume s: "step_iter gm = Some (Suspended k)"
      and i: "iterate_bots cs inps k gm = Inr (sig, gm')"
    note f = steps_left_iterate_bots [OF i]
    show ?thesis
    proof (cases sig)
      case Yield
      with f(1,2) s show ?thesis
        by (auto simp: nearer_def steps_left_def)
    next
      case StopIteration
      with f(1) s show ?thesis
        by (simp add: nearer_def steps_left_def rounds_left_def split: option.splits)
    next
      case GameFinished
      with f(3) show ?thesis by simp
    qed
  next
    fix gm0
    assume s: "step_iter gm = Some Created" and b: "begin_round cs gm = Inr gm0"
      and r: "if finished (game_state gm0)
              then sig = GameFinished \<and> gm' = (update_viewers gm0)\<lparr>step_iter := Some Exhausted\<rparr>
              else iterate_bots cs inps 0 gm0 = Inr (sig, gm')"
    show ?thesis
    proof (cases "finished (game_state gm0)")
      case True
      with r show ?thesis
        by (simp add: nearer_def update_viewers_simps)
    next
      case False
      with r have i: "iterate_bots cs inps 0 gm0 = Inr (sig, gm')"
        by simp
      note f = steps_left_iterate_bots [OF i]
      from rounds_left_begin_round [OF b assms(2) False] f(1)
      have l: "rounds_left gm' < rounds_left gm"
        by simp
      show ?thesis
      proof (cases sig)
        case Yield
        with f(2) l s show ?thesis
          by (auto simp: nearer_def steps_left_def)
      next
        case StopIteration
        with l s show ?thesis
          by (simp add: nearer_def steps_left_def rounds_left_def split: option.splits)
      next
        case GameFinished
        with f(3) show ?thesis by simp
      qed
    qed
  qed
  then show "sig \<noteq> StopIteration \<Longrightarrow> nearer gm gm'"
    and "sig = StopIteration \<Longrightarrow> nearer gm (gm'\<lparr>step_iter := None\<rparr>)"
    by simp_all
qed

lemma iter_next_GameFinished:
  assumes "iter_next cs inps gm = Inr (GameFinished, gm')"
  shows "step_iter gm' = Some Exhausted"
  using iter_next_cases [OF assms] steps_left_iterate_bots(3)
  by (fastforce split: if_splits)

lemma round_loop_ends:
  assumes "round_loop cs inps gm = Some (Inr gm')"
  shows "\<forall>k. step_iter gm' \<noteq> Some (Suspended k)"
proof -
  have "\<forall>k. step_iter g' \<noteq> Some (Suspended k)"
    if "round_loop c i g = Some y" and "c = cs" and "y = Inr g'"
    for c i g y g'
    using that(2-)
  proof (induction c i g y arbitrary: g' rule: round_loop.raw_induct)
    case (1 f c i g y)
    note eq = "1.hyps" and c = "1.prems"(1) and y = "1.prems"(2)
    from eq y obtain sig gm1 where n: "iter_next c i g = Inr (sig, gm1)"
      by (cases "iter_next c i g") auto
    show ?case
    proof (cases sig)
      case Yield
      with eq n have "f c i gm1 = Some y"
        by simp
      from "1.IH" [OF this c y] show ?thesis .
    next
      case StopIteration
      with eq n y show ?thesis
        by auto
    next
      case GameFinished
      with eq n y have "g' = gm1"
        by simp
      with iter_next_GameFinished [OF n [unfolded GameFinished]] show ?thesis
        by simp
    qed
  qed (rule that(1))
  with assms show ?thesis
    by blast
qed

lemma play_round_nearer:
  assumes "play_round cs inps gm = Some (Inr gm')" and "\<not> finished (game_state gm)"
  shows "finished (game_state gm') \<or> steps_left gm' < steps_left gm"
proof -
  from assms have r: "round_loop cs inps (ensure_iter gm) = Some (Inr gm')"
    by (simp add: play_round_def)
  from assms(2) have u: "\<not> finished (game_state (ensure_iter gm))"
    by simp
  have "nearer (ensure_iter gm) gm'"
    by (rule round_loop_lift [where R = nearer and cs = cs, OF _ _ _ r u])
       (erule (2) nearer_trans, erule (1) nearer_iter_next(1), assumption,
        erule nearer_iter_next(2) [rotated], simp, assumption)
  moreover have "steps_left (ensure_iter gm) = steps_left gm"
    by (simp add: steps_left_def rounds_left_def ensure_iter_def split: option.splits)
  ultimately show ?thesis
    using round_loop_ends [OF r] by (auto simp: nearer_def split: if_splits)
qed

lemma play_loop_returns:
  assumes "bots_kept cs"
  shows "\<exists>r. play_loop cs rounds n gm = Some r"
proof (induction "steps_left gm" arbitrary: gm n rule: less_induct)
  case less
  show ?case
  proof (cases "finished (game_state gm)")
    case True
    then show ?thesis
      by (subst play_loop.simps) simp
  next
    case False
    from play_round_returns [OF assms] obtain r where r: "play_round cs (rounds n) gm = Some r"
      by blast
    show ?thesis
    proof (cases r)
      case (Inl e)
      with r False show ?thesis
        by (subst play_loop.simps) simp
    next
      case (Inr gm1)
      from play_round_nearer [OF r [unfolded Inr] False]
      have "\<exists>r. play_loop cs rounds (Suc n) gm1 = Some r"
      proof
        assume "finished (game_state gm1)"
        then show ?thesis
          by (subst play_loop.simps) simp
      next
        assume "steps_left gm1 < steps_left gm"
        then show ?thesis
          by (rule less)
      qed
      with r Inr False show ?thesis
        by (subst play_loop.simps) simp
    qed
  qed
qed

lemma play_returns:
  assumes "bots_kept cs"
  shows "\<exists>r. play cs rounds gm = Some r"
proof (cases "set_initial gm")
  case (Inl e)
  then show ?thesis
    by (simp add: play_def)
next
  case (Inr gm0)
  from play_loop_returns [OF assms] obtain r where "play_loop cs rounds 0 gm0 = Some r"
    by blast
  with Inr show ?thesis
    by (cases r) (simp_all add: play_def)
qed

lemma play_step_returns:
  assumes "bots_kept cs"
  shows "\<exists>r. play_step cs inp gm = Some r"
proof (induction "steps_left gm" arbitrary: gm rule: less_induct)
  case less
  show ?case
  proof (cases "finished (game_state gm)")
    case True
    then show ?thesis
      by (subst play_step.simps) simp
  next
    case False
    then have u: "\<not> finished (game_state (ensure_iter gm))"
      by simp
    have e: "steps_left (ensure_iter gm) = steps_left gm"
      by (simp add: steps_left_def rounds_left_def ensure_iter_def split: option.splits)
    show ?thesis
    proof (cases "iter_next cs (\<lambda>k. inp) (ensure_iter gm)")
      case (Inl e)
      with False show ?thesis
        by (subst play_step.simps) simp
    next
      case (Inr p)
      obtain sig gm1 where p: "p = (sig, gm1)"
        by (cases p)
      note n = Inr [unfolded p]
      show ?thesis
      proof (cases sig)
        case Yield
        with n False show ?thesis
          by (subst play_step.simps) simp
      next
        case GameFinished
        with n False show ?thesis
          by (subst play_step.simps) simp
      next
        case StopIteration
        let ?g = "gm1\<lparr>step_iter := None\<rparr>"
        from nearer_iter_next(2) [OF n u StopIteration] e
        have "finished (game_state ?g) \<or> steps_left ?g < steps_left gm"
          by (auto simp: nearer_def split: if_splits)
        then have "\<exists>r. play_step cs inp ?g = Some r"
        proof
          assume "finished (game_state ?g)"
          then show ?thesis
            by (subst play_step.simps) simp
        next
          assume "steps_left ?g < steps_left gm"
          then show ?thesis
            by (rule less)
        qed
        with n StopIteration False show ?thesis
          by (subst play_step.simps) simp
      qed
    qed
  qed
qed

lemma run_op_returns:
  assumes "bots_kept cs"
  shows "\<exists>r. run_op cs op gm = Some r"
  by (cases op)
     (simp_all add: play_step_returns [OF assms] play_round_returns [OF assms]
        play_returns [OF assms])

lemma run_ops_returns:
  assumes "bots_kept cs"
  shows "\<exists>r. run_ops cs ops gm = Some r"
proof (induction ops arbitrary: gm)
  case Nil
  show ?case
    by simp
next
  case (Cons op ops)
  from run_op_returns [OF assms] obtain r where r: "run_op cs op gm = Some r"
    by blast
  show ?case
  proof (cases r)
    case (Inl e)
    with r show ?thesis
      by simp
  next
    case (Inr gm1)
    with r Cons.IH [of gm1] show ?thesis
      by simp
  qed
qed


lemma bots_kept_corridor: "bots_kept corridor"
  by (auto simp: bots_kept_def corridor_def corridor_move_bot_def split: if_splits option.splits)

section \<open>A winner, once set\<close>

text \<open>No turn clears \<open>team_wins\<close>, and the test at the end of a round finds it.\<close>

lemma count_timeout_winner:
  "team_wins gs \<noteq> None \<Longrightarrow> team_wins (count_timeout bt gs) \<noteq> None"
  by (simp add: count_timeout_def Let_def)

lemma play_bot_keeps_winner:
  assumes "play_bot cs inp bt gm = Inr gm'" and "team_wins (game_state gm) \<noteq> None"
  shows "team_wins (game_state gm') \<noteq> None"
proof -
  let ?gm0 = "begin_turn bt gm"
  have t: "team_index bt < length (player_teams gm)"
    using assms(1) by (rule play_bot_Inr_team)
  show ?thesis
  proof (cases "try_move cs inp bt ?gm0")
    case (Inr gm1)
    with assms(1) t have "gm' = gm1"
      by (simp add: play_bot_moved)
    with try_move_Inr_cases [OF Inr] assms(2) show ?thesis
      by (auto simp: merge_move_state_simps begin_turn_def)
  next
    case (Inl p)
    obtain e gm1 where p: "p = (e, gm1)"
      by (cases p)
    note tm = Inl [unfolded p]
    from try_move_Inl(8) [OF tm] assms(2) have w: "team_wins (game_state gm1) \<noteq> None"
      by (simp add: begin_turn_simps)
    consider (recover) "e = IllegalMoveException \<or> e = PlayerTimeout"
      | (gone) "e = PlayerDisconnected"
      | (other) "e \<noteq> IllegalMoveException" "e \<noteq> PlayerTimeout" "e \<noteq> PlayerDisconnected"
      by blast
    then show ?thesis
    proof cases
      case recover
      from play_bot_recovers [OF tm recover t] assms(1)
      have "recover_timeout cs inp bt gm1 = Inr gm'"
        by simp
      from recover_timeout_Inr [OF this] obtain u' ms where
        "gm' = gm1\<lparr>universe := u', game_state := merge_move_state ms (count_timeout bt (game_state gm1))\<rparr>"
        by blast
      with count_timeout_winner [OF w] show ?thesis
        by (simp add: merge_move_state_simps)
    next
      case gone
      from play_bot_disconnected [OF tm [unfolded gone] t] assms(1) show ?thesis
        by (auto simp: disqualify_disconnected_def)
    next
      case other
      from play_bot_raises [OF tm other] assms(1) show ?thesis
        by auto
    qed
  qed
qed

lemma finish_round_winner:
  assumes "finish_round cs gm = Inr gm'" and "team_wins (game_state gm) \<noteq> None"
  shows "team_wins (game_state gm') = team_wins (game_state gm)"
    and "finished (game_state gm')"
proof -
  from assms(1) obtain gm1 where w: "check_winner (check_finished cs gm) = Inr gm1"
    and p: "print_possible_winner gm1 = Inr gm'"
    by (auto simp: finish_round_def split: sum.splits)
  from p have e: "gm' = gm1"
    by (rule print_possible_winner_Inr)
  have f: "finished (game_state (check_finished cs gm))"
    using assms(2) by (rule finished_after_team_wins)
  from assms(2) have "team_wins (game_state (check_finished cs gm)) \<noteq> None"
    by (simp add: check_finished_simps)
  with w f have "gm1 = check_finished cs gm"
    by (simp add: check_winner_def Let_def)
  with f show "team_wins (game_state gm') = team_wins (game_state gm)"
    and "finished (game_state gm')"
    by (simp_all add: e check_finished_simps)
qed

text \<open>The generator's yield after a turn.\<close>

lemma iterate_bots_turn:
  assumes "k < length (bots (universe gm))"
    and "play_bot cs (inps k) (bots (universe gm) ! k) gm = Inr gm1"
  shows "iterate_bots cs inps k gm
           = Inr (Yield, (update_viewers (gm1\<lparr>game_state := (game_state gm1)
                            \<lparr>running_time := running_time (game_state gm1) + elapsed (inps k)\<rparr>\<rparr>))
                          \<lparr>step_iter := Some (Suspended (Suc k))\<rparr>)"
  using assms by (simp add: iterate_bots_def Let_def)

lemma winner_kept_iterate_bots:
  assumes "iterate_bots cs inps k gm = Inr (sig, gm')"
  shows "winner_kept gm gm'"
    and "team_wins (game_state gm) \<noteq> None \<Longrightarrow> sig = StopIteration \<Longrightarrow> finished (game_state gm')"
proof -
  have "winner_kept gm gm'
        \<and> (team_wins (game_state gm) \<noteq> None \<longrightarrow> sig = StopIteration \<longrightarrow> finished (game_state gm'))"
    using iterate_bots_cases [OF assms]
  proof (elim disjE conjE exE)
    fix gm1
    assume sig: "sig = Yield"
      and p: "play_bot cs (inps k) (bots (universe gm) ! k) gm = Inr gm1"
      and g: "gm' = (update_viewers (gm1\<lparr>game_state := (game_state gm1)
                      \<lparr>running_time := running_time (game_state gm1) + elapsed (inps k)\<rparr>\<rparr>))
                    \<lparr>step_iter := Some (Suspended (Suc k))\<rparr>"
    from play_bot_keeps_winner [OF p] show ?thesis
      by (simp add: winner_kept_def sig g update_viewers_simps)
  next
    fix gm1
    assume sig: "sig = StopIteration"
      and f: "finish_round cs gm = Inr gm1"
      and g: "gm' = (if finished (game_state gm1) then update_viewers gm1 else gm1)
                    \<lparr>step_iter := Some Exhausted\<rparr>"
    have gs: "game_state gm' = game_state gm1"
      by (simp add: g update_viewers_simps)
    from finish_round_winner [OF f] show ?thesis
      by (simp add: winner_kept_def gs)
  qed
  then show "winner_kept gm gm'"
    and "team_wins (game_state gm) \<noteq> None \<Longrightarrow> sig = StopIteration \<Longrightarrow> finished (game_state gm')"
    by simp_all
qed

lemma winner_kept_begin_round:
  assumes "begin_round cs gm = Inr gm0"
  shows "winner_kept gm gm0"
proof (cases "finished (game_state (prepare_next_round gm))")
  case True
  with assms have "gm0 = prepare_next_round gm"
    by (simp add: begin_round_def Let_def)
  then show ?thesis
    by (simp add: winner_kept_def prepare_next_round_simps)
next
  case False
  with assms have f: "finish_round cs (prepare_next_round gm) = Inr gm0"
    by (simp add: begin_round_def Let_def)
  show ?thesis
    unfolding winner_kept_def
  proof
    assume "team_wins (game_state gm) \<noteq> None"
    then have w: "team_wins (game_state (prepare_next_round gm)) \<noteq> None"
      by (simp add: prepare_next_round_simps)
    from finish_round_winner(1) [OF f w] w show "team_wins (game_state gm0) \<noteq> None"
      by simp
  qed
qed

lemma winner_kept_same: "winner_kept gm gm"
  by (simp add: winner_kept_def)

lemma winner_kept_trans: "winner_kept a b \<Longrightarrow> winner_kept b c \<Longrightarrow> winner_kept a c"
  by (simp add: winner_kept_def)

lemma winner_kept_iter_next:
  assumes "iter_next cs inps gm = Inr (sig, gm')"
  shows "winner_kept gm (gm'\<lparr>step_iter := x\<rparr>)"
proof -
  have "winner_kept gm gm'"
    using iter_next_cases [OF assms]
  proof (elim disjE conjE exE)
    assume "gm' = gm"
    then show ?thesis
      by (simp add: winner_kept_same)
  next
    fix k
    assume "iterate_bots cs inps k gm = Inr (sig, gm')"
    then show ?thesis
      by (rule winner_kept_iterate_bots(1))
  next
    fix gm0
    assume b: "begin_round cs gm = Inr gm0"
      and r: "if finished (game_state gm0)
              then sig = GameFinished \<and> gm' = (update_viewers gm0)\<lparr>step_iter := Some Exhausted\<rparr>
              else iterate_bots cs inps 0 gm0 = Inr (sig, gm')"
    show ?thesis
    proof (cases "finished (game_state gm0)")
      case True
      with r winner_kept_begin_round [OF b] show ?thesis
        by (simp add: winner_kept_def update_viewers_simps)
    next
      case False
      with r have "iterate_bots cs inps 0 gm0 = Inr (sig, gm')"
        by simp
      from winner_kept_begin_round [OF b] winner_kept_iterate_bots(1) [OF this] show ?thesis
        by (rule winner_kept_trans)
    qed
  qed
  then show ?thesis
    by (simp add: winner_kept_def)
qed

lemma winner_kept_run_op:
  assumes "run_op cs op gm = Some (Inr gm')"
  shows "winner_kept gm gm'"
proof -
  have step: "winner_kept g g'"
    if "iter_next cs i g = Inr (sig, g')" for i g sig g'
    using winner_kept_iter_next [OF that, of "step_iter g'"] by simp
  have stop: "winner_kept g (g'\<lparr>step_iter := None\<rparr>)"
    if "iter_next cs i g = Inr (StopIteration, g')" for i g g'
    using that by (rule winner_kept_iter_next)
  have ens: "winner_kept g (ensure_iter g)" for g :: "'a GameMaster"
    by (simp add: ensure_iter_def winner_kept_def)
  show ?thesis
  proof (cases op)
    case (PlayStep inp)
    with assms have "play_step cs inp gm = Some (Inr gm')"
      by simp
    then show ?thesis
      apply (rule play_step_lift [where R = winner_kept and cs = cs, rotated 5])
          apply (rule winner_kept_same)
         apply (erule winner_kept_trans, assumption)
        apply (erule step)
       apply (erule stop)
      apply (rule ens)
      done
  next
    case (PlayRound inps)
    with assms have "play_round cs inps gm = Some (Inr gm')"
      by simp
    then show ?thesis
      apply (rule play_round_lift [where R = winner_kept and cs = cs, rotated 5])
          apply (rule winner_kept_same)
         apply (erule winner_kept_trans, assumption)
        apply (erule step)
       apply (erule stop)
      apply (rule ens)
      done
  next
    case (Play rounds)
    with assms obtain gm1 where l: "play_loop cs rounds 0 gm = Some (Inr gm1)"
      and g: "gm' = update_viewers gm1"
      by (auto simp: play_def set_initial_def split: if_splits option.splits sum.splits)
    from l have "winner_kept gm gm1 \<and> finished (game_state gm1)"
      apply (rule play_loop_lift [where R = winner_kept and cs = cs, rotated 5])
          apply (rule winner_kept_same)
         apply (erule winner_kept_trans, assumption)
        apply (erule step)
       apply (erule stop)
      apply (rule ens)
      done
    then show ?thesis
      by (simp add: g winner_kept_def update_viewers_simps)
  qed
qed

lemma winner_kept_run_ops:
  "run_ops cs ops gm = Some (Inr gm') \<Longrightarrow> winner_kept gm gm'"
proof (induction ops arbitrary: gm)
  case Nil
  then show ?case
    by (simp add: winner_kept_same)
next
  case (Cons op ops)
  from Cons.prems obtain gm1 where o: "run_op cs op gm = Some (Inr gm1)"
    and r: "run_ops cs ops gm1 = Some (Inr gm')"
    by (auto split: option.splits sum.splits)
  from winner_kept_run_op [OF o] Cons.IH [OF r] show ?case
    by (rule winner_kept_trans)
qed

text \<open>
  A round in which \<open>team_wins\<close> is set comes to its end with \<open>finished\<close> set: the bots
  that are left have their turns, then the termination test finds \<open>team_wins\<close>.
\<close>

lemma round_loop_winner:
  assumes "round_loop cs inps gm = Some (Inr gm')"
    and "step_iter gm = Some (Suspended k)"
    and "team_wins (game_state gm) \<noteq> None"
  shows "finished (game_state gm') \<and> team_wins (game_state gm') \<noteq> None \<and> step_iter gm' = None"
proof -
  have "finished (game_state g') \<and> team_wins (game_state g') \<noteq> None \<and> step_iter g' = None"
    if "round_loop c i g = Some y" and "c = cs" and "y = Inr g'"
      and "step_iter g = Some (Suspended k)" and "team_wins (game_state g) \<noteq> None"
    for c i g y g' k
    using that(2-)
  proof (induction c i g y arbitrary: g' k rule: round_loop.raw_induct)
    case (1 f c i g y)
    note eq = "1.hyps" and c = "1.prems"(1) and y = "1.prems"(2)
      and s = "1.prems"(3) and w = "1.prems"(4)
    from eq y obtain sig gm1 where n: "iter_next c i g = Inr (sig, gm1)"
      by (cases "iter_next c i g") auto
    from n s have it: "iterate_bots c i k g = Inr (sig, gm1)"
      by (simp add: iter_next_def)
    from winner_kept_iterate_bots(1) [OF it] w have w1: "team_wins (game_state gm1) \<noteq> None"
      by (simp add: winner_kept_def)
    show ?case
    proof (cases sig)
      case Yield
      with eq n have r: "f c i gm1 = Some y"
        by simp
      from iterate_bots_cases [OF it] Yield have "step_iter gm1 = Some (Suspended (Suc k))"
        by auto
      from "1.IH" [OF r c y this w1] show ?thesis .
    next
      case StopIteration
      with eq n y have "g' = gm1\<lparr>step_iter := None\<rparr>"
        by simp
      with winner_kept_iterate_bots(2) [OF it w StopIteration] w1 show ?thesis
        by simp
    next
      case GameFinished
      with steps_left_iterate_bots(3) [OF it] show ?thesis
        by simp
    qed
  qed (rule that(1))
  from this [OF assms(1) refl refl assms(2,3)] show ?thesis .
qed

lemma play_round_winner:
  assumes "play_round cs inps gm = Some (Inr gm')"
    and "team_wins (game_state gm) \<noteq> None"
    and "finished (game_state gm) \<or> (\<exists>k. step_iter gm = Some (Suspended k))"
  shows "finished (game_state gm') \<and> team_wins (game_state gm') \<noteq> None"
proof (cases "finished (game_state gm)")
  case True
  with assms(1) have "gm' = gm"
    by (simp add: play_round_def)
  with True assms(2) show ?thesis
    by simp
next
  case False
  with assms(3) obtain k where k: "step_iter gm = Some (Suspended k)"
    by blast
  with False assms(1) have "round_loop cs inps gm = Some (Inr gm')"
    by (simp add: play_round_def ensure_iter_def)
  from round_loop_winner [OF this k assms(2)] show ?thesis
    by simp
qed

text \<open>The example rounds.\<close>

lemma timed_out_round_eq:
  "\<exists>v. timed_out_round =
     Some (Inr (four_timeouts
       \<lparr>universe := two_bots\<lparr>bots :=
           [\<lparr>index = 0, team_index = 0, current_pos = (1, 0), noisy = False\<rparr>,
            \<lparr>index = 1, team_index = 1, current_pos = (2, 0), noisy = False\<rparr>]\<rparr>,
        player_teams := [[0], [1]],
        viewers := [v],
        step_iter := None,
        game_state := (game_state four_timeouts)
           \<lparr>bot_id := Some 1, timeout_teams := [5, 0], running_time := 3,
            team_wins := Some 1, finished := True\<rparr>\<rparr>))"
  unfolding timed_out_round_def play_round_def
  apply (subst round_loop.simps)
  apply (subst round_loop.simps)
  apply (subst round_loop.simps)
  apply (simp add: four_timeouts_def timing_out_def answering_def example_defs turn_defs round_defs Let_def)
  done

lemma first_gone_eq: "play_step corridor disconnecting first_round = Some (Inr first_gone)"
  apply (subst play_step.simps)
  apply (simp add: first_gone_def first_round_def disconnecting_def example_defs turn_defs
           round_defs Let_def)
  done

lemma gone_round_eq:
  "\<exists>v. gone_round =
     Some (Inr (first_gone
       \<lparr>universe := two_bots\<lparr>bots :=
           [\<lparr>index = 0, team_index = 0, current_pos = (0, 0), noisy = False\<rparr>,
            \<lparr>index = 1, team_index = 1, current_pos = (2, 0), noisy = False\<rparr>]\<rparr>,
        player_teams := [[0], [1]],
        viewers := [v],
        step_iter := None,
        game_state := (game_state first_gone)\<lparr>bot_id := Some 1, finished := True\<rparr>\<rparr>))"
  unfolding gone_round_def play_round_def
  apply (subst round_loop.simps)
  apply (subst round_loop.simps)
  apply (simp add: first_gone_def first_round_def answering_def example_defs turn_defs round_defs Let_def)
  done

section \<open>The chances of a random choice\<close>

lemma random_choice_nth: "r < length xs \<Longrightarrow> random_choice r xs = Inr (xs ! r)"
  by (auto simp: random_choice_def)

lemma choice_count:
  "length (filter (\<lambda>r. random_choice r xs = Inr x) [0..<length xs]) = count_list xs x"
proof -
  have "filter (\<lambda>r. random_choice r xs = Inr x) [0..<length xs]
          = filter (\<lambda>r. xs ! r = x) [0..<length xs]"
    by (rule filter_cong) (simp_all add: random_choice_nth)
  moreover have "length (filter (\<lambda>r. xs ! r = x) [0..<length xs])
                   = length (filter (\<lambda>y. y = x) (map (nth xs) [0..<length xs]))"
    by (simp add: filter_map comp_def)
  moreover have "length (filter (\<lambda>y. y = x) xs) = count_list xs x"
    by (induction xs) simp_all
  ultimately show ?thesis
    by (simp add: map_nth)
qed

lemma choice_chance_count: "choice_chance xs x = real (count_list xs x) / real (length xs)"
  by (simp add: choice_chance_def choice_count)

lemma choice_chance_uniform:
  assumes "distinct xs" and "x \<in> set xs"
  shows "choice_chance xs x = 1 / real (length xs)"
proof -
  from assms have "count_list xs x = 1"
    by (induction xs) auto
  then show ?thesis
    by (simp add: choice_chance_count)
qed

lemma choice_chance_outside: "x \<notin> set xs \<Longrightarrow> choice_chance xs x = 0"
  by (simp add: choice_chance_count)

section \<open>The claims about termination and winner\<close>

text \<open>
  C4. After \<^verbatim>\<open>check_finished\<close>, which the round iterator runs when a round is complete,
  \<open>finished\<close> is true if and only if \<open>team_wins\<close> or \<open>game_draw\<close> is set already, or
  \<open>round_index\<close> has reached \<open>game_time\<close>, or the count of food left to eat is zero for
  some team.
\<close>

theorem check_finished_iff:
  "finished (game_state (check_finished cs gm)) \<longleftrightarrow>
     team_wins (game_state gm) \<noteq> None \<or> game_draw (game_state gm) \<noteq> None
     \<or> (\<exists>r. round_index (game_state gm) = Some r \<and> game_time gm \<le> r)
     \<or> (\<exists>t \<in> set (teams (universe gm)). enemy_food cs (universe gm) (team_id t) = 0)"
proof -
  have r: "round_reached (round_index (game_state gm)) (game_time gm)
             \<longleftrightarrow> (\<exists>r. round_index (game_state gm) = Some r \<and> game_time gm \<le> r)"
    by (cases "round_index (game_state gm)") (simp_all add: round_reached_def)
  have f: "\<not> py_all (food_left cs (universe gm))
             \<longleftrightarrow> (\<exists>t \<in> set (teams (universe gm)). enemy_food cs (universe gm) (team_id t) = 0)"
    by (simp add: py_all_def food_left_def list_all_iff)
  show ?thesis
    unfolding finished_check_finished r f ..
qed

text \<open>
  The scenario of a match of 50 rounds in which, in round 10, no food is left for some team:
  the test sets \<open>finished\<close>. With food left for both teams it does not.
\<close>

theorem check_finished_iff_witness:
  "finished (game_state (check_finished (corridor\<lparr>enemy_food := (\<lambda>u t. if t = 0 then 0 else 4)\<rparr>)
      ((example_master 50)\<lparr>game_state := initial_game_state\<lparr>round_index := Some 10\<rparr>\<rparr>)))
   \<and> \<not> finished (game_state (check_finished corridor
      ((example_master 50)\<lparr>game_state := initial_game_state\<lparr>round_index := Some 10\<rparr>\<rparr>)))"
  using check_finished_iff [of "corridor\<lparr>enemy_food := (\<lambda>u t. if t = 0 then 0 else 4)\<rparr>"
          "(example_master 50)\<lparr>game_state := initial_game_state\<lparr>round_index := Some 10\<rparr>\<rparr>"]
        check_finished_iff [of corridor
          "(example_master 50)\<lparr>game_state := initial_game_state\<lparr>round_index := Some 10\<rparr>\<rparr>"]
  by (simp add: example_master_def register_viewer_def register_team_def GameMaster_init_def
        initial_game_state_def two_bots_def corridor_def)

text \<open>
  C3. \<^verbatim>\<open>check_winner\<close> does nothing while \<open>finished\<close> is false, and nothing when
  \<open>team_wins\<close> or \<open>game_draw\<close> is set already (by a disqualification or by an earlier
  run); so it decides only the first time it meets \<open>finished\<close>, and a second run changes
  nothing. When it decides, the team with the strictly higher score wins, and equal scores
  set \<open>game_draw\<close>.
\<close>

theorem check_winner_decides_once:
  "(\<not> finished (game_state gm) \<longrightarrow> check_winner gm = Inr gm)
   \<and> (team_wins (game_state gm) \<noteq> None \<or> game_draw (game_state gm) \<noteq> None
        \<longrightarrow> check_winner gm = Inr gm)
   \<and> (finished (game_state gm) \<and> team_wins (game_state gm) = None
        \<and> game_draw (game_state gm) = None \<and> 2 \<le> length (teams (universe gm)) \<longrightarrow>
       (let s0 = score (teams (universe gm) ! 0); s1 = score (teams (universe gm) ! 1) in
        (s0 > s1 \<longrightarrow> check_winner gm = Inr (gm\<lparr>game_state := (game_state gm)\<lparr>team_wins := Some 0\<rparr>\<rparr>))
        \<and> (s0 < s1 \<longrightarrow> check_winner gm = Inr (gm\<lparr>game_state := (game_state gm)\<lparr>team_wins := Some 1\<rparr>\<rparr>))
        \<and> (s0 = s1 \<longrightarrow> check_winner gm = Inr (gm\<lparr>game_state := (game_state gm)\<lparr>game_draw := Some True\<rparr>\<rparr>))))
   \<and> (\<forall>gm'. check_winner gm = Inr gm' \<longrightarrow> check_winner gm' = Inr gm')"
  by (auto simp: check_winner_def Let_def split: if_splits)

text \<open>
  Scores 3 to 1 make team 0 the winner, 2 to 2 a draw, and a second run on the outcome of
  the first changes nothing.
\<close>

theorem check_winner_decides_once_witness:
  "check_winner (ended_master 3 1)
     = Inr ((ended_master 3 1)\<lparr>game_state := (game_state (ended_master 3 1))\<lparr>team_wins := Some 0\<rparr>\<rparr>)
   \<and> check_winner (ended_master 2 2)
     = Inr ((ended_master 2 2)\<lparr>game_state := (game_state (ended_master 2 2))\<lparr>game_draw := Some True\<rparr>\<rparr>)
   \<and> check_winner ((ended_master 3 1)\<lparr>game_state := (game_state (ended_master 3 1))\<lparr>team_wins := Some 0\<rparr>\<rparr>)
     = Inr ((ended_master 3 1)\<lparr>game_state := (game_state (ended_master 3 1))\<lparr>team_wins := Some 0\<rparr>\<rparr>)"
  using check_winner_decides_once [of "ended_master 3 1"]
        check_winner_decides_once [of "ended_master 2 2"]
  by (simp add: ended_master_def with_scores_def example_master_def register_viewer_def
        register_team_def GameMaster_init_def initial_game_state_def two_bots_def Let_def)


section \<open>The claims about a failing turn\<close>

text \<open>
  C8. When the turn of a bot ends in IllegalMoveException or PlayerTimeout and the handler
  gets through, the move it applied to the universe is the fallback move, and that move is
  one of the legal moves at the position of the bot, and it is not \<open>stop\<close> when another
  legal move exists. This holds for every timeout count, below the threshold in particular.
\<close>

theorem fallback_move_is_legal:
  assumes "try_move cs inp bt (begin_turn bt gm) = Inl (e, gm1)"
    and "e = IllegalMoveException \<or> e = PlayerTimeout"
    and "play_bot cs inp bt gm = Inr gm'"
  shows "\<exists>m ms.
           fallback_move cs (fallback_choice inp) (universe gm) (current_pos bt) = Inr m
           \<and> move_bot cs (universe gm) (index bt) m = Inr (universe gm', ms)
           \<and> m \<in> fst ` set (get_legal_moves cs (universe gm) (current_pos bt))
           \<and> ((\<exists>m' \<in> fst ` set (get_legal_moves cs (universe gm) (current_pos bt)). m' \<noteq> stop cs)
                \<longrightarrow> m \<noteq> stop cs)"
proof -
  have t: "team_index bt < length (player_teams gm)"
    using assms(3) by (rule play_bot_Inr_team)
  have u: "universe gm1 = universe gm"
    using try_move_Inl(1) [OF assms(1)] by (simp add: begin_turn_simps)
  have "recover_timeout cs inp bt gm1 = Inr gm'"
    using play_bot_recovers [OF assms(1,2) t] assms(3) by simp
  from recover_timeout_Inr [OF this] obtain m u' ms where
    m: "fallback_move cs (fallback_choice inp) (universe gm) (current_pos bt) = Inr m"
    and mv: "move_bot cs (universe gm) (index bt) m = Inr (u', ms)"
    and gm': "gm' = gm1\<lparr>universe := u', game_state := merge_move_state ms (count_timeout bt (game_state gm1))\<rparr>"
    unfolding u by blast
  from gm' have "universe gm' = u'" by simp
  with m mv fallback_move_Inr(2) [OF m] fallback_move_Inr(3) [OF m]
  show ?thesis by blast
qed

text \<open>
  In the corridor the first bot stands at the west end, where it may stand still or step
  east. Its team times out for the first time: the turn ends with the bot one cell to the
  east.
\<close>

theorem fallback_move_is_legal_witness:
  "try_move corridor timing_out (bots (universe first_round) ! 0)
       (begin_turn (bots (universe first_round) ! 0) first_round)
     = Inl (PlayerTimeout,
            (begin_turn (bots (universe first_round) ! 0) first_round)\<lparr>player_teams := [[0], []]\<rparr>)
   \<and> fst ` set (get_legal_moves corridor (universe first_round)
                 (current_pos (bots (universe first_round) ! 0))) = {(0, 0), (1, 0)}
   \<and> stop corridor = (0, 0)
   \<and> (\<exists>gm' m ms.
         play_bot corridor timing_out (bots (universe first_round) ! 0) first_round = Inr gm'
         \<and> fallback_move corridor (fallback_choice timing_out) (universe first_round)
               (current_pos (bots (universe first_round) ! 0)) = Inr m
         \<and> move_bot corridor (universe first_round) (index (bots (universe first_round) ! 0)) m
               = Inr (universe gm', ms)
         \<and> m \<in> {(0, 0), (1, 0)} \<and> m \<noteq> (0, 0))"
proof -
  let ?b = "bots (universe first_round) ! 0"
  have h1: "try_move corridor timing_out ?b (begin_turn ?b first_round)
              = Inl (PlayerTimeout, (begin_turn ?b first_round)\<lparr>player_teams := [[0], []]\<rparr>)"
    by (simp add: first_round_def timing_out_def example_defs turn_defs Let_def)
  obtain gm' where h3: "play_bot corridor timing_out ?b first_round = Inr gm'"
    by (simp add: first_round_def timing_out_def example_defs turn_defs Let_def)
  have legal: "fst ` set (get_legal_moves corridor (universe first_round) (current_pos ?b))
                 = {(0, 0), (1, 0)}"
    by (simp add: first_round_def example_defs)
  have st: "stop corridor = (0, 0)"
    by (simp add: corridor_def)
  have other: "\<exists>m' \<in> fst ` set (get_legal_moves corridor (universe first_round) (current_pos ?b)).
                 m' \<noteq> stop corridor"
    unfolding legal st by simp
  from fallback_move_is_legal [OF h1 _ h3] other
  obtain m ms where
    "fallback_move corridor (fallback_choice timing_out) (universe first_round) (current_pos ?b) = Inr m"
    "move_bot corridor (universe first_round) (index ?b) m = Inr (universe gm', ms)"
    "m \<in> {(0, 0), (1, 0)}" "m \<noteq> (0, 0)"
    unfolding legal st by blast
  with h1 h3 legal st show ?thesis
    by blast
qed

text \<open>
  C10. The handler of IllegalMoveException and PlayerTimeout removes \<open>stop\<close> from the
  keys of the legal moves whether it is there or not. When \<open>stop\<close> is not a legal move
  at the position of the bot, the turn ends in an uncaught ValueError and no fallback move
  is applied; so a turn that gets through the handler had \<open>stop\<close> among the legal moves.
  With \<open>stop\<close> among them the choice of the fallback move does not raise.
\<close>

theorem recovery_needs_stop:
  assumes "try_move cs inp bt (begin_turn bt gm) = Inl (e, gm1)"
    and "e = IllegalMoveException \<or> e = PlayerTimeout"
    and "team_index bt < length (player_teams gm)"
    and "team_index bt < length (timeout_teams (game_state gm))"
  shows "(stop cs \<notin> fst ` set (get_legal_moves cs (universe gm) (current_pos bt))
            \<longrightarrow> play_bot cs inp bt gm = Inl ValueError)
         \<and> (\<forall>gm'. play_bot cs inp bt gm = Inr gm'
            \<longrightarrow> stop cs \<in> fst ` set (get_legal_moves cs (universe gm) (current_pos bt)))
         \<and> (stop cs \<in> fst ` set (get_legal_moves cs (universe gm) (current_pos bt))
            \<longrightarrow> (\<exists>m. fallback_move cs (fallback_choice inp) (universe gm) (current_pos bt) = Inr m))"
proof -
  have u: "universe gm1 = universe gm"
    using try_move_Inl(1) [OF assms(1)] by (simp add: begin_turn_simps)
  have tt: "timeout_teams (game_state gm1) = timeout_teams (game_state gm)"
    using try_move_Inl(7) [OF assms(1)] by (simp add: begin_turn_simps)
  have r: "play_bot cs inp bt gm = recover_timeout cs inp bt gm1"
    by (rule play_bot_recovers [OF assms(1,2,3)])
  have v: "recover_timeout cs inp bt gm1 = Inl ValueError"
    if "stop cs \<notin> fst ` set (get_legal_moves cs (universe gm) (current_pos bt))"
    using assms(4) fallback_move_no_stop [OF that]
    by (simp add: recover_timeout_def u tt)
  show ?thesis
    unfolding r
  proof (intro conjI impI allI)
    assume "stop cs \<notin> fst ` set (get_legal_moves cs (universe gm) (current_pos bt))"
    then show "recover_timeout cs inp bt gm1 = Inl ValueError"
      by (rule v)
  next
    fix gm'
    assume ok: "recover_timeout cs inp bt gm1 = Inr gm'"
    show "stop cs \<in> fst ` set (get_legal_moves cs (universe gm) (current_pos bt))"
    proof (rule ccontr)
      assume "stop cs \<notin> fst ` set (get_legal_moves cs (universe gm) (current_pos bt))"
      from v [OF this] ok show False
        by simp
    qed
  next
    assume "stop cs \<in> fst ` set (get_legal_moves cs (universe gm) (current_pos bt))"
    then show "\<exists>m. fallback_move cs (fallback_choice inp) (universe gm) (current_pos bt) = Inr m"
      by (rule fallback_move_total)
  qed
qed

text \<open>
  In a corridor where a bot can only step east, a timeout of the first bot's team ends the
  turn, and with it the run, in ValueError.
\<close>

theorem recovery_needs_stop_witness:
  "try_move one_way timing_out (bots (universe first_round) ! 0)
       (begin_turn (bots (universe first_round) ! 0) first_round)
     = Inl (PlayerTimeout,
            (begin_turn (bots (universe first_round) ! 0) first_round)\<lparr>player_teams := [[0], []]\<rparr>)
   \<and> team_index (bots (universe first_round) ! 0) < length (player_teams first_round)
   \<and> team_index (bots (universe first_round) ! 0) < length (timeout_teams (game_state first_round))
   \<and> stop one_way \<notin> fst ` set (get_legal_moves one_way (universe first_round)
                                    (current_pos (bots (universe first_round) ! 0)))
   \<and> play_bot one_way timing_out (bots (universe first_round) ! 0) first_round = Inl ValueError"
proof -
  let ?b = "bots (universe first_round) ! 0"
  have h1: "try_move one_way timing_out ?b (begin_turn ?b first_round)
              = Inl (PlayerTimeout, (begin_turn ?b first_round)\<lparr>player_teams := [[0], []]\<rparr>)"
    by (simp add: one_way_def first_round_def timing_out_def example_defs turn_defs Let_def)
  have h3: "team_index ?b < length (player_teams first_round)"
    by (simp add: first_round_def example_defs)
  have h4: "team_index ?b < length (timeout_teams (game_state first_round))"
    by (simp add: first_round_def example_defs)
  have h5: "stop one_way \<notin> fst ` set (get_legal_moves one_way (universe first_round) (current_pos ?b))"
    by (simp add: one_way_def first_round_def example_defs)
  from recovery_needs_stop [OF h1 _ h3 h4] h5
  have "play_bot one_way timing_out ?b first_round = Inl ValueError"
    by blast
  with h1 h3 h4 h5 show ?thesis
    by blast
qed







section \<open>The claim about the noiser\<close>



section \<open>The claims about sequences of operations\<close>







text \<open>
  C9, as the code has it. In a turn the team is asked once and then every viewer is handed
  the universe and the game state as the turn has left them, once. A match driven by
  \<^verbatim>\<open>play\<close> from an unfinished state, when \<^verbatim>\<open>play\<close> returns, has notified every viewer
  once for each move requested and twice more at the end: once by the round iterator when
  it found the match finished, once by \<^verbatim>\<open>play\<close> after its loop, both times with the
  final universe and game state.
\<close>

theorem viewers_notified:
  assumes "play cs rounds gm = Some (Inr gm')" and "\<not> finished (game_state gm)"
  shows "(\<exists>n. moves_requested gm' = moves_requested gm + n
            \<and> length (viewers gm') = length (viewers gm)
            \<and> (\<forall>i < length (viewers gm).
                  length (viewers gm' ! i) = length (viewers gm ! i) + n + 2
                  \<and> (\<exists>v. viewers gm' ! i
                             = v @ [(universe gm', game_state gm'), (universe gm', game_state gm')])))
         \<and> (\<forall>inps k g g'. iterate_bots cs inps k g = Inr (Yield, g')
               \<longrightarrow> moves_requested g' = Suc (moves_requested g)
                   \<and> viewers g' = map (\<lambda>v. v @ [(universe g', game_state g')]) (viewers g))"
proof -
  from assms(1) obtain gm1 where l: "play_loop cs rounds 0 gm = Some (Inr gm1)"
    and g: "gm' = update_viewers gm1"
    by (auto simp: play_def set_initial_def split: if_splits option.splits sum.splits)
  from notified_play_loop [OF l] assms(2) obtain n where
    n: "moves_requested gm1 = moves_requested gm + n"
    and len: "length (viewers gm1) = length (viewers gm)"
    and each: "\<And>i. i < length (viewers gm) \<Longrightarrow>
                 length (viewers gm1 ! i) = length (viewers gm ! i) + n + 1"
    and final: "\<And>i. i < length (viewers gm) \<Longrightarrow>
                  \<exists>v. viewers gm1 ! i = v @ [(universe gm1, game_state gm1)]"
    unfolding notified_def by auto
  have "length (viewers gm' ! i) = length (viewers gm ! i) + n + 2
        \<and> (\<exists>v. viewers gm' ! i
                  = v @ [(universe gm', game_state gm'), (universe gm', game_state gm')])"
    if i: "i < length (viewers gm)" for i
  proof -
    from final [OF i] obtain v where v: "viewers gm1 ! i = v @ [(universe gm1, game_state gm1)]"
      by blast
    from i len have "viewers gm' ! i = viewers gm1 ! i @ [(universe gm1, game_state gm1)]"
      by (simp add: g update_viewers_last)
    with v each [OF i] show ?thesis
      by (simp add: g update_viewers_simps)
  qed
  moreover have "moves_requested gm' = moves_requested gm + n"
    by (simp add: g n update_viewers_simps)
  moreover have "length (viewers gm') = length (viewers gm)"
    by (simp add: g len update_viewers_simps)
  ultimately have "\<exists>n. moves_requested gm' = moves_requested gm + n
            \<and> length (viewers gm') = length (viewers gm)
            \<and> (\<forall>i < length (viewers gm).
                  length (viewers gm' ! i) = length (viewers gm ! i) + n + 2
                  \<and> (\<exists>v. viewers gm' ! i
                             = v @ [(universe gm', game_state gm'), (universe gm', game_state gm')]))"
    by blast
  moreover have "moves_requested g' = Suc (moves_requested g)
                 \<and> viewers g' = map (\<lambda>v. v @ [(universe g', game_state g')]) (viewers g)"
    if "iterate_bots cs inps k g = Inr (Yield, g')" for inps k g g'
    using iterate_bots_Yield(1,2) [OF that] by simp
  ultimately show ?thesis
    by blast
qed

text \<open>
  A match of one round with two bots and one viewer: the teams are asked twice, the viewer
  is notified four times.
\<close>

theorem viewers_notified_counterexample:
  "short_match \<noteq> None \<and> \<not> isl (the short_match)
   \<and> moves_requested (example_master 1) = 0
   \<and> map length (viewers (example_master 1)) = [0]
   \<and> moves_requested (projr (the short_match)) = 2
   \<and> map length (viewers (projr (the short_match))) = [4]"
proof -
  from short_match_eq obtain gm' where s: "short_match = Some (Inr gm')"
    and r: "moves_requested gm' = 2" "map length (viewers gm') = [4]"
      "moves_requested (example_master 1) = 0" "map length (viewers (example_master 1)) = [0]"
    by (elim exE conjE)
  from r show ?thesis
    unfolding s by simp
qed

theorem viewers_notified_witness:
  "\<not> finished (game_state (example_master 1))
   \<and> play corridor (\<lambda>n k. answering (0, 0)) (example_master 1) = short_match
   \<and> short_match \<noteq> None \<and> \<not> isl (the short_match)
   \<and> length (viewers (example_master 1)) = 1
   \<and> length (viewers (projr (the short_match)) ! 0)
       = length (viewers (example_master 1) ! 0)
         + (moves_requested (projr (the short_match)) - moves_requested (example_master 1)) + 2"
proof -
  from short_match_eq obtain gm' where s: "short_match = Some (Inr gm')"
    by (elim exE conjE)
  then have h1: "play corridor (\<lambda>n k. answering (0, 0)) (example_master 1) = Some (Inr gm')"
    by (simp add: short_match_def)
  have h2: "\<not> finished (game_state (example_master 1))"
    and one: "length (viewers (example_master 1)) = 1"
    by (simp_all add: example_defs)
  have zero: "(0::nat) < length (viewers (example_master 1))"
    by (simp add: one)
  from viewers_notified [OF h1 h2] obtain n where
    m: "moves_requested gm' = moves_requested (example_master 1) + n"
    and a: "\<forall>i < length (viewers (example_master 1)).
              length (viewers gm' ! i) = length (viewers (example_master 1) ! i) + n + 2
              \<and> (\<exists>v. viewers gm' ! i
                         = v @ [(universe gm', game_state gm'), (universe gm', game_state gm')])"
    by (elim exE conjE)
  from a zero have "length (viewers gm' ! 0) = length (viewers (example_master 1) ! 0) + n + 2"
    by blast
  with m have "length (viewers gm' ! 0)
               = length (viewers (example_master 1) ! 0)
                 + (moves_requested gm' - moves_requested (example_master 1)) + 2"
    by simp
  with h1 h2 one show ?thesis
    unfolding s by simp
qed

end
